theory Spec2Isabelle
  imports Main "HOL-Library.Sublist"
begin

section \<open>JavaScript strings\<close>

text \<open>
  Strings are lists of 8-bit code units. The importer only ever inspects ASCII
  punctuation, digits and white space, so the model keeps the code units below 256 and
  the white space of that range: tab, line feed, vertical tab, form feed, carriage
  return, space and the no-break space.
\<close>

definition is_space :: "char \<Rightarrow> bool" where
  "is_space c = (c \<in> {CHR 0x09, CHR 0x0A, CHR 0x0B, CHR 0x0C, CHR 0x0D, CHR 0x20, CHR 0xA0})"

text \<open>\<^verbatim>\<open>String.prototype.trim\<close>: white space removed at both ends.\<close>

definition trim :: "string \<Rightarrow> string" where
  "trim s = rev (dropWhile is_space (rev (dropWhile is_space s)))"

text \<open>
  \<^verbatim>\<open>text.indexOf(t)\<close>: the position of the first occurrence of \<open>t\<close>,
  \<open>None\<close> for JavaScript's \<open>-1\<close>. The empty string occurs at position 0.
\<close>

fun indexOf :: "string \<Rightarrow> string \<Rightarrow> nat option" where
  "indexOf [] t = (if t = [] then Some 0 else None)"
| "indexOf (c # cs) t =
     (if prefix t (c # cs) then Some 0 else map_option Suc (indexOf cs t))"

text \<open>\<^verbatim>\<open>text.includes(t)\<close>.\<close>

definition includes_str :: "string \<Rightarrow> string \<Rightarrow> bool" where
  "includes_str s t = (indexOf s t \<noteq> None)"

text \<open>The decimal rendering of a non-negative integer, as a template literal prints it.\<close>

definition digit_char :: "nat \<Rightarrow> char" where
  "digit_char d = char_of (48 + d)"

fun show_nat :: "nat \<Rightarrow> string" where
  "show_nat n = (if n < 10 then [digit_char n] else show_nat (n div 10) @ [digit_char (n mod 10)])"

declare show_nat.simps [simp del]

section \<open>The retry wrapper\<close>

text \<open>
  An error object as \<^verbatim>\<open>withRetry\<close> reads it: the three properties it tests, each
  absent (\<open>None\<close>) or present.
\<close>

record js_error =
  err_statusCode :: "int option"
  err_code :: "string option"
  err_message :: "string option"

text \<open>
  The test \<^verbatim>\<open>isRetryable\<close> of the source. A comparison of \<^verbatim>\<open>undefined\<close> with 500
  is false, and \<^verbatim>\<open>err.message?.includes(...)\<close> of a missing message is falsy.
\<close>

definition isRetryable :: "js_error \<Rightarrow> bool" where
  "isRetryable err =
     ((case err_statusCode err of Some n \<Rightarrow> 500 \<le> n | None \<Rightarrow> False) \<or>
      err_code err = Some ''ECONNRESET'' \<or>
      err_code err = Some ''ETIMEDOUT'' \<or>
      err_code err = Some ''ENOTFOUND'' \<or>
      err_code err = Some ''ECONNREFUSED'' \<or>
      (case err_message err of Some m \<Rightarrow> includes_str m ''socket hang up'' | None \<Rightarrow> False))"

text \<open>
  How a run of the wrapper ends: the operation's value, a thrown error, or the
  \<^verbatim>\<open>undefined\<close> of a loop that never ran. The record also keeps the number of times
  the operation was invoked and the delays slept between attempts, in milliseconds.
\<close>

datatype 'a retry_result = Returns 'a | Throws js_error | ReturnsUndefined

record 'a retry_run =
  rr_result :: "'a retry_result"
  rr_calls :: nat
  rr_delays :: "nat list"

text \<open>
  The \<^verbatim>\<open>for\<close> loop of \<^verbatim>\<open>withRetry\<close>. The operation \<open>fn\<close> is effectful, so its
  outcome depends on the attempt: \<open>fn k\<close> is what the \<open>k\<close>-th invocation does.
\<close>

function withRetry_loop ::
  "(nat \<Rightarrow> js_error + 'a) \<Rightarrow> nat \<Rightarrow> nat \<Rightarrow> nat \<Rightarrow> nat list \<Rightarrow> 'a retry_run" where
  "withRetry_loop fn maxRetries baseDelay attempt delays =
     (if attempt \<le> maxRetries then
        (case fn attempt of
           Inr v \<Rightarrow> \<lparr>rr_result = Returns v, rr_calls = attempt, rr_delays = delays\<rparr>
         | Inl err \<Rightarrow>
             if attempt = maxRetries \<or> \<not> isRetryable err
             then \<lparr>rr_result = Throws err, rr_calls = attempt, rr_delays = delays\<rparr>
             else withRetry_loop fn maxRetries baseDelay (attempt + 1)
                    (delays @ [baseDelay * 2 ^ (attempt - 1)]))
      else \<lparr>rr_result = ReturnsUndefined, rr_calls = attempt - 1, rr_delays = delays\<rparr>)"
  by pat_completeness auto
termination
  by (relation "measure (\<lambda>(fn, maxRetries, baseDelay, attempt, delays). Suc maxRetries - attempt)") auto

declare withRetry_loop.simps [simp del]

definition withRetry :: "(nat \<Rightarrow> js_error + 'a) \<Rightarrow> nat \<Rightarrow> nat \<Rightarrow> 'a retry_run" where
  "withRetry fn maxRetries baseDelay = withRetry_loop fn maxRetries baseDelay 1 []"

text \<open>
  The transient conditions as the specification lists them: a server status of 500 or
  above, one of the four connection error codes, or a message that mentions a socket
  hang-up somewhere in its text.
\<close>

definition transient :: "js_error \<Rightarrow> bool" where
  "transient e =
     ((\<exists>n. err_statusCode e = Some n \<and> 500 \<le> n) \<or>
      (\<exists>c. err_code e = Some c \<and>
           c \<in> {''ECONNRESET'', ''ETIMEDOUT'', ''ENOTFOUND'', ''ECONNREFUSED''}) \<or>
      (\<exists>m pre post. err_message e = Some m \<and> m = pre @ ''socket hang up'' @ post))"

subsection \<open>Facts about searching in strings\<close>

lemma indexOf_Some_decomp:
  "indexOf s t = Some i \<Longrightarrow> s = take i s @ t @ drop (i + length t) s \<and> i + length t \<le> length s"
proof (induction s arbitrary: i)
  case Nil
  then show ?case by (simp split: if_splits)
next
  case (Cons c cs)
  show ?case
  proof (cases "prefix t (c # cs)")
    case True
    with Cons.prems have "i = 0" by simp
    moreover from True obtain r where "c # cs = t @ r" by (auto simp: prefix_def)
    ultimately show ?thesis by simp
  next
    case False
    with Cons.prems obtain j where j: "indexOf cs t = Some j" "i = Suc j" by auto
    from Cons.IH[OF j(1)] j(2) show ?thesis by simp
  qed
qed

lemma indexOf_None_no_occurrence:
  "indexOf s t = None \<Longrightarrow> s \<noteq> pre @ t @ post"
proof (induction s arbitrary: pre)
  case Nil
  then show ?case by (auto split: if_splits)
next
  case (Cons c cs)
  from Cons.prems have np: "\<not> prefix t (c # cs)" and rec: "indexOf cs t = None"
    by (auto split: if_splits)
  show ?case
  proof (cases pre)
    case Nil
    with np show ?thesis by (auto simp: prefix_def)
  next
    case (Cons p ps)
    with Cons.IH[OF rec, of ps] show ?thesis by auto
  qed
qed

lemma includes_str_iff: "includes_str s t \<longleftrightarrow> (\<exists>pre post. s = pre @ t @ post)"
proof
  assume "includes_str s t"
  then obtain i where "indexOf s t = Some i" by (auto simp: includes_str_def)
  from indexOf_Some_decomp[OF this] show "\<exists>pre post. s = pre @ t @ post" by blast
next
  assume "\<exists>pre post. s = pre @ t @ post"
  then show "includes_str s t"
    using indexOf_None_no_occurrence[of s t] by (auto simp: includes_str_def)
qed

lemma isRetryable_transient: "isRetryable e = transient e"
  by (auto simp: isRetryable_def transient_def includes_str_iff split: option.splits)

subsection \<open>Facts about the retry loop\<close>

lemma withRetry_loop_calls_ge:
  "attempt \<le> maxRetries \<Longrightarrow> attempt \<le> rr_calls (withRetry_loop fn maxRetries baseDelay attempt delays)"
proof (induction fn maxRetries baseDelay attempt delays rule: withRetry_loop.induct)
  case (1 fn maxRetries baseDelay attempt delays)
  show ?case
  proof (cases "fn attempt")
    case (Inr v)
    with "1.prems" show ?thesis by (simp add: withRetry_loop.simps)
  next
    case (Inl err)
    show ?thesis
    proof (cases "attempt = maxRetries \<or> \<not> isRetryable err")
      case True
      with Inl "1.prems" show ?thesis by (simp add: withRetry_loop.simps[of fn maxRetries baseDelay attempt])
    next
      case False
      with "1.prems" have "attempt + 1 \<le> maxRetries" by simp
      from "1.IH"[OF "1.prems" Inl False this] Inl False "1.prems"
      show ?thesis by (simp add: withRetry_loop.simps[of fn maxRetries baseDelay attempt])
    qed
  qed
qed

lemma withRetry_loop_delays_prefix:
  "prefix delays (rr_delays (withRetry_loop fn maxRetries baseDelay attempt delays))"
proof (induction fn maxRetries baseDelay attempt delays rule: withRetry_loop.induct)
  case (1 fn maxRetries baseDelay attempt delays)
  show ?case
  proof (cases "attempt \<le> maxRetries")
    case False
    then show ?thesis by (simp add: withRetry_loop.simps)
  next
    case le: True
    show ?thesis
    proof (cases "fn attempt")
      case (Inr v)
      with le show ?thesis by (simp add: withRetry_loop.simps)
    next
      case (Inl err)
      show ?thesis
      proof (cases "attempt = maxRetries \<or> \<not> isRetryable err")
        case True
        with Inl le show ?thesis by (simp add: withRetry_loop.simps[of fn maxRetries baseDelay attempt])
      next
        case False
        from "1.IH"[OF le Inl False] have
          "prefix (delays @ [baseDelay * 2 ^ (attempt - 1)])
             (rr_delays (withRetry_loop fn maxRetries baseDelay (attempt + 1)
                (delays @ [baseDelay * 2 ^ (attempt - 1)])))" .
        then have "prefix delays
             (rr_delays (withRetry_loop fn maxRetries baseDelay (attempt + 1)
                (delays @ [baseDelay * 2 ^ (attempt - 1)])))"
          using append_prefixD by blast
        with Inl False le show ?thesis
          by (simp add: withRetry_loop.simps[of fn maxRetries baseDelay attempt])
      qed
    qed
  qed
qed

text \<open>
  While the attempts \<open>a, ..., k - 1\<close> fail with retryable errors and \<open>k\<close> is within the
  maximum, the loop reaches attempt \<open>k\<close> having slept the doubling delays.
\<close>

lemma withRetry_loop_reaches:
  assumes "a \<le> k" "k \<le> maxRetries"
      and "\<And>j. a \<le> j \<Longrightarrow> j < k \<Longrightarrow> \<exists>e. fn j = Inl e \<and> isRetryable e"
  shows "withRetry_loop fn maxRetries baseDelay a delays =
         withRetry_loop fn maxRetries baseDelay k
           (delays @ map (\<lambda>j. baseDelay * 2 ^ (j - 1)) [a..<k])"
  using assms
proof (induction k)
  case 0
  then show ?case by simp
next
  case (Suc k)
  show ?case
  proof (cases "a = Suc k")
    case True
    then show ?thesis by simp
  next
    case False
    with Suc.prems have ak: "a \<le> k" and km: "k < maxRetries" by simp_all
    have "withRetry_loop fn maxRetries baseDelay a delays =
          withRetry_loop fn maxRetries baseDelay k
            (delays @ map (\<lambda>j. baseDelay * 2 ^ (j - 1)) [a..<k])"
      using Suc.IH[OF ak] km Suc.prems(3) by simp
    moreover obtain e where e: "fn k = Inl e" "isRetryable e"
      using Suc.prems(3)[of k] ak by auto
    ultimately show ?thesis
      using km ak by (simp add: withRetry_loop.simps[of fn maxRetries baseDelay k])
  qed
qed

text \<open>An operation that fails once with a server error and then succeeds.\<close>

definition flaky :: "nat \<Rightarrow> js_error + string" where
  "flaky k = (if k = 1 then Inl \<lparr>err_statusCode = Some 503, err_code = None, err_message = None\<rparr>
              else Inr ''asset-1'')"

lemma reach_from_one:
  assumes "1 \<le> k" "k \<le> maxRetries"
      and "\<forall>j. 1 \<le> j \<and> j < k \<longrightarrow> (\<exists>e'. fn j = Inl e' \<and> transient e')"
  shows "withRetry fn maxRetries baseDelay = withRetry_loop fn maxRetries baseDelay k (map (\<lambda>j. baseDelay * 2 ^ (j - 1)) [1..<k])"
proof -
  have "\<And>j. 1 \<le> j \<Longrightarrow> j < k \<Longrightarrow> \<exists>e. fn j = Inl e \<and> isRetryable e"
    using assms(3) by (simp add: isRetryable_transient)
  from withRetry_loop_reaches[OF assms(1) assms(2) this, where delays = "[]" and baseDelay = baseDelay]
  show ?thesis unfolding withRetry_def by simp
qed

text \<open>
  Claim C9. Let attempt \<open>k\<close> of an operation run under the retry wrapper fail with error
  \<open>e\<close>, every earlier attempt having failed with a transient error. Then the operation
  is invoked again exactly when \<open>e\<close> is transient and \<open>k\<close> is not the last permitted
  attempt; when it is, the delays slept so far double from the base delay
  (\<open>baseDelay\<close>, \<open>2 * baseDelay\<close>, ...); when it is not, \<open>e\<close> is thrown to the caller at
  once, after exactly \<open>k\<close> invocations.
\<close>

theorem withRetry_retries_iff_transient:
  assumes "1 \<le> k" "k \<le> maxRetries"
      and "\<forall>j. 1 \<le> j \<and> j < k \<longrightarrow> (\<exists>e'. fn j = Inl e' \<and> transient e')"
      and "fn k = Inl e"
  shows "(k < rr_calls (withRetry fn maxRetries baseDelay) \<longleftrightarrow> transient e \<and> k < maxRetries) \<and>
         (k < rr_calls (withRetry fn maxRetries baseDelay) \<longrightarrow>
            prefix (map (\<lambda>j. baseDelay * 2 ^ (j - 1)) [1..<Suc k])
                   (rr_delays (withRetry fn maxRetries baseDelay))) \<and>
         (\<not> k < rr_calls (withRetry fn maxRetries baseDelay) \<longrightarrow>
            withRetry fn maxRetries baseDelay =
              \<lparr>rr_result = Throws e, rr_calls = k,
               rr_delays = map (\<lambda>j. baseDelay * 2 ^ (j - 1)) [1..<k]\<rparr>)"
proof -
  let ?ds = "map (\<lambda>j. baseDelay * 2 ^ (j - 1)) [1..<k]"
  let ?run = "withRetry fn maxRetries baseDelay"
  have reach: "?run = withRetry_loop fn maxRetries baseDelay k ?ds"
    by (rule reach_from_one[OF assms(1-3)])
  show ?thesis
  proof (cases "k = maxRetries \<or> \<not> isRetryable e")
    case True
    have run: "?run = \<lparr>rr_result = Throws e, rr_calls = k, rr_delays = ?ds\<rparr>"
      unfolding reach using True assms(2,4)
      by (simp add: withRetry_loop.simps[of fn maxRetries baseDelay k])
    have "\<not> k < rr_calls ?run" unfolding run by simp
    moreover have "\<not> (transient e \<and> k < maxRetries)"
      using True by (auto simp: isRetryable_transient)
    ultimately show ?thesis using run by simp
  next
    case False
    with assms(2) have lt: "k + 1 \<le> maxRetries" by simp
    have step: "?run =
            withRetry_loop fn maxRetries baseDelay (k + 1) (?ds @ [baseDelay * 2 ^ (k - 1)])"
      unfolding reach using assms(2,4) False
      by (simp add: withRetry_loop.simps[of fn maxRetries baseDelay k])
    have calls: "k < rr_calls ?run"
      unfolding step
      using withRetry_loop_calls_ge[OF lt, where fn = fn and baseDelay = baseDelay
              and delays = "?ds @ [baseDelay * 2 ^ (k - 1)]"]
      by simp
    have eq: "?ds @ [baseDelay * 2 ^ (k - 1)] = map (\<lambda>j. baseDelay * 2 ^ (j - 1)) [1..<Suc k]"
      using assms(1) by simp
    have pre: "prefix (map (\<lambda>j. baseDelay * 2 ^ (j - 1)) [1..<Suc k]) (rr_delays ?run)"
      unfolding step eq[symmetric] by (rule withRetry_loop_delays_prefix)
    have "transient e \<and> k < maxRetries"
      using False lt by (simp add: isRetryable_transient)
    with calls pre show ?thesis by simp
  qed
qed

theorem withRetry_retries_iff_transient_witness:
  "flaky 1 = Inl \<lparr>err_statusCode = Some 503, err_code = None, err_message = None\<rparr> \<and>
   transient \<lparr>err_statusCode = Some 503, err_code = None, err_message = None\<rparr> \<and>
   1 < rr_calls (withRetry flaky 3 1000) \<and>
   prefix [1000] (rr_delays (withRetry flaky 3 1000))"
  using withRetry_retries_iff_transient[of 1 3 flaky
          "\<lparr>err_statusCode = Some 503, err_code = None, err_message = None\<rparr>" 1000]
  by (simp add: flaky_def transient_def)

section \<open>Frontmatter and its validation\<close>

text \<open>
  A frontmatter value as the YAML parser hands it over. Numbers are kept as integers
  (only their being zero matters here); an array, a date or a nested object is \<open>JObj\<close>
  with the text \<^verbatim>\<open>String(v)\<close> gives for it.
\<close>

datatype jsval = JUndefined | JNull | JBool bool | JNum int | JNaN | JStr string | JObj string

text \<open>JavaScript's truthiness, which the source uses for "is present".\<close>

fun truthy :: "jsval \<Rightarrow> bool" where
  "truthy JUndefined = False"
| "truthy JNull = False"
| "truthy (JBool b) = b"
| "truthy (JNum n) = (n \<noteq> 0)"
| "truthy JNaN = False"
| "truthy (JStr s) = (s \<noteq> [])"
| "truthy (JObj s) = True"

text \<open>
  \<^verbatim>\<open>String(v)\<close>, the conversion a template literal applies. A number is printed
  in full, as JavaScript prints an integer of fewer than 22 digits.
\<close>

fun js_string :: "jsval \<Rightarrow> string" where
  "js_string JUndefined = ''undefined''"
| "js_string JNull = ''null''"
| "js_string (JBool b) = (if b then ''true'' else ''false'')"
| "js_string (JNum n) = (if n < 0 then ''-'' @ show_nat (nat (- n)) else show_nat (nat n))"
| "js_string JNaN = ''NaN''"
| "js_string (JStr s) = s"
| "js_string (JObj s) = s"

record frontmatter =
  fm_title :: jsval
  fm_slug :: jsval
  fm_author :: jsval
  fm_authorId :: jsval
  fm_mainImage :: jsval
  fm_mainImageAlt :: jsval
  fm_publishedAt :: jsval
  fm_excerpt :: jsval
  fm_categories :: "jsval list option"

text \<open>\<^verbatim>\<open>errors.join(", ")\<close>.\<close>

fun join :: "string \<Rightarrow> string list \<Rightarrow> string" where
  "join sep [] = []"
| "join sep [x] = x"
| "join sep (x # y # ys) = x @ sep @ join sep (y # ys)"

text \<open>
  \<^verbatim>\<open>validateFrontmatter(fm, file)\<close>. The thrown \<^verbatim>\<open>Error\<close> is \<open>Inl\<close> of its message.
  \<^verbatim>\<open>Date.parse\<close> belongs to the runtime and is a parameter: \<open>dateParse s\<close> is \<open>None\<close>
  where \<^verbatim>\<open>Date.parse\<close> gives \<^verbatim>\<open>NaN\<close>.
\<close>

definition validation_errors :: "(string \<Rightarrow> int option) \<Rightarrow> frontmatter \<Rightarrow> string list" where
  "validation_errors dateParse fm =
     (let errors = [];
          errors = (if \<not> truthy (fm_title fm) then errors @ [''missing 'title'' @ [CHR 0x27]] else errors);
          errors = (if \<not> truthy (fm_author fm) \<and> \<not> truthy (fm_authorId fm)
                    then errors @ [''missing 'author' or 'authorId'' @ [CHR 0x27]] else errors);
          errors = (if \<not> truthy (fm_mainImage fm) then errors @ [''missing 'mainImage'' @ [CHR 0x27]] else errors);
          errors = (if \<not> truthy (fm_mainImageAlt fm) then errors @ [''missing 'mainImageAlt'' @ [CHR 0x27]] else errors);
          errors = (if truthy (fm_publishedAt fm)
                    then (case dateParse (js_string (fm_publishedAt fm)) of
                            None \<Rightarrow> errors @ [''invalid 'publishedAt' date: '' @ js_string (fm_publishedAt fm)]
                          | Some parsed \<Rightarrow> errors)
                    else errors)
      in errors)"

definition validateFrontmatter ::
  "(string \<Rightarrow> int option) \<Rightarrow> frontmatter \<Rightarrow> string \<Rightarrow> string + unit" where
  "validateFrontmatter dateParse fm file =
     (let errors = validation_errors dateParse fm
      in if length errors > 0
         then Inl (''Frontmatter validation failed in '' @ file @ '': '' @ join '', '' errors)
         else Inr ())"

text \<open>
  The violations the specification names. \<open>stated_violation\<close> says what each one means
  in the words of the specification: a field is missing when the object has no value
  for it (\<^verbatim>\<open>undefined\<close> or \<^verbatim>\<open>null\<close>) and present otherwise. \<open>tested_violation\<close>
  says what the source tests: a field counts as missing when its value is falsy, and
  \<open>publishedAt\<close> as present when its value is truthy. \<open>describe\<close> is the text that
  reports a violation.
\<close>

datatype violation =
  MissingTitle | MissingAuthor | MissingMainImage | MissingMainImageAlt | InvalidPublishedAt

definition absent :: "jsval \<Rightarrow> bool" where
  "absent v \<longleftrightarrow> v = JUndefined \<or> v = JNull"

fun stated_violation :: "(string \<Rightarrow> int option) \<Rightarrow> frontmatter \<Rightarrow> violation \<Rightarrow> bool" where
  "stated_violation dateParse fm MissingTitle = absent (fm_title fm)"
| "stated_violation dateParse fm MissingAuthor = (absent (fm_author fm) \<and> absent (fm_authorId fm))"
| "stated_violation dateParse fm MissingMainImage = absent (fm_mainImage fm)"
| "stated_violation dateParse fm MissingMainImageAlt = absent (fm_mainImageAlt fm)"
| "stated_violation dateParse fm InvalidPublishedAt =
     (\<not> absent (fm_publishedAt fm) \<and> dateParse (js_string (fm_publishedAt fm)) = None)"

fun tested_violation :: "(string \<Rightarrow> int option) \<Rightarrow> frontmatter \<Rightarrow> violation \<Rightarrow> bool" where
  "tested_violation dateParse fm MissingTitle = (\<not> truthy (fm_title fm))"
| "tested_violation dateParse fm MissingAuthor = (\<not> truthy (fm_author fm) \<and> \<not> truthy (fm_authorId fm))"
| "tested_violation dateParse fm MissingMainImage = (\<not> truthy (fm_mainImage fm))"
| "tested_violation dateParse fm MissingMainImageAlt = (\<not> truthy (fm_mainImageAlt fm))"
| "tested_violation dateParse fm InvalidPublishedAt =
     (truthy (fm_publishedAt fm) \<and> dateParse (js_string (fm_publishedAt fm)) = None)"

fun describe :: "frontmatter \<Rightarrow> violation \<Rightarrow> string" where
  "describe fm MissingTitle = ''missing 'title'' @ [CHR 0x27]"
| "describe fm MissingAuthor = ''missing 'author' or 'authorId'' @ [CHR 0x27]"
| "describe fm MissingMainImage = ''missing 'mainImage'' @ [CHR 0x27]"
| "describe fm MissingMainImageAlt = ''missing 'mainImageAlt'' @ [CHR 0x27]"
| "describe fm InvalidPublishedAt = ''invalid 'publishedAt' date: '' @ js_string (fm_publishedAt fm)"

text \<open>
  A frontmatter with a title and an author but neither cover image nor its alt text; a
  complete frontmatter; and a \<^verbatim>\<open>Date.parse\<close> that knows one date.
\<close>

definition fm_no_cover :: frontmatter where
  "fm_no_cover =
     \<lparr>fm_title = JStr ''Hello'', fm_slug = JUndefined, fm_author = JStr ''Doc'',
      fm_authorId = JUndefined, fm_mainImage = JUndefined, fm_mainImageAlt = JUndefined,
      fm_publishedAt = JUndefined, fm_excerpt = JUndefined, fm_categories = None\<rparr>"

definition fm_complete :: frontmatter where
  "fm_complete =
     \<lparr>fm_title = JStr ''Hello'', fm_slug = JUndefined, fm_author = JStr ''Doc'',
      fm_authorId = JUndefined, fm_mainImage = JStr ''cover.png'', fm_mainImageAlt = JStr ''Cover'',
      fm_publishedAt = JStr ''2024-01-15'', fm_excerpt = JUndefined, fm_categories = None\<rparr>"

definition parse_one_date :: "string \<Rightarrow> int option" where
  "parse_one_date s = (if s = ''2024-01-15'' then Some 1705276800000 else None)"

lemma validation_errors_eq:
  "validation_errors dateParse fm =
     map (describe fm)
       (filter (tested_violation dateParse fm)
          [MissingTitle, MissingAuthor, MissingMainImage, MissingMainImageAlt, InvalidPublishedAt])"
  by (simp add: validation_errors_def Let_def split: option.splits)

lemma violation_cases:
  "v \<in> set [MissingTitle, MissingAuthor, MissingMainImage, MissingMainImageAlt, InvalidPublishedAt]"
  by (cases v) simp_all

lemma all_violations_UNIV:
  "set [MissingTitle, MissingAuthor, MissingMainImage, MissingMainImageAlt, InvalidPublishedAt] = UNIV"
  using violation_cases by blast

lemma set_filter_violations:
  "set (filter (tested_violation dateParse fm)
      [MissingTitle, MissingAuthor, MissingMainImage, MissingMainImageAlt, InvalidPublishedAt]) =
   {v. tested_violation dateParse fm v}"
  unfolding set_filter all_violations_UNIV by simp

lemma describe_eq_iff: "(describe fm x = describe fm y) = (x = y)"
  by (cases x; cases y; simp)

lemma distinct_described_violations:
  "distinct (map (describe fm) (filter (tested_violation dateParse fm)
      [MissingTitle, MissingAuthor, MissingMainImage, MissingMainImageAlt, InvalidPublishedAt]))"
proof -
  have "inj_on (describe fm) A" for A
    by (rule inj_onI) (simp add: describe_eq_iff)
  moreover have "distinct (filter (tested_violation dateParse fm)
      [MissingTitle, MissingAuthor, MissingMainImage, MissingMainImageAlt, InvalidPublishedAt])"
    by simp
  ultimately show ?thesis by (simp only: distinct_map simp_thms)
qed

lemma validateFrontmatter_unfold:
  "validateFrontmatter dateParse fm file =
     (if validation_errors dateParse fm = [] then Inr ()
      else Inl (''Frontmatter validation failed in '' @ file @ '': '' @
                join '', '' (validation_errors dateParse fm)))"
  by (simp add: validateFrontmatter_def Let_def)

text \<open>
  A field that is missing in the words of the specification is missing for the source
  too, and a date the source rejects is present and unparseable in those words; the
  converse of neither holds.
\<close>

lemma absent_falsy: "absent v \<Longrightarrow> \<not> truthy v"
  by (auto simp: absent_def)

lemma stated_missing_is_tested:
  "v \<noteq> InvalidPublishedAt \<Longrightarrow> stated_violation dateParse fm v \<Longrightarrow> tested_violation dateParse fm v"
  by (cases v) (auto dest: absent_falsy)

lemma tested_date_is_stated:
  "tested_violation dateParse fm InvalidPublishedAt \<Longrightarrow> stated_violation dateParse fm InvalidPublishedAt"
  by (auto dest: absent_falsy)

text \<open>
  Claim C7, amended: with the violations as the source tests them, a field counting as
  missing when its value is falsy (absent, \<^verbatim>\<open>null\<close>, the empty string, \<^verbatim>\<open>0\<close>,
  \<^verbatim>\<open>false\<close> or \<^verbatim>\<open>NaN\<close>) and \<open>publishedAt\<close> as present when its value is truthy.
  Validation fails exactly when the frontmatter has at least one of the five
  violations. The one error then reported is the fixed prefix with the file name
  followed by the comma-separated descriptions of all the violations present, each
  exactly once, in the order title, author, cover image, alt text, date.
\<close>

theorem validateFrontmatter_reports_all:
  "((\<exists>msg. validateFrontmatter dateParse fm file = Inl msg) \<longleftrightarrow> (\<exists>v. tested_violation dateParse fm v)) \<and>
   (validateFrontmatter dateParse fm file = Inl msg \<longrightarrow>
      (\<exists>errs. msg = ''Frontmatter validation failed in '' @ file @ '': '' @ join '', '' errs \<and>
              distinct errs \<and>
              set errs = describe fm ` {v. tested_violation dateParse fm v}))"
proof -
  let ?vs = "filter (tested_violation dateParse fm)
      [MissingTitle, MissingAuthor, MissingMainImage, MissingMainImageAlt, InvalidPublishedAt]"
  let ?errs = "validation_errors dateParse fm"
  have errs: "?errs = map (describe fm) ?vs"
    by (rule validation_errors_eq)
  have set_errs: "set ?errs = describe fm ` {v. tested_violation dateParse fm v}"
    unfolding errs set_map set_filter_violations ..
  have dist: "distinct ?errs"
    unfolding errs by (rule distinct_described_violations)
  have "?errs \<noteq> [] \<longleftrightarrow> set ?errs \<noteq> {}" by simp
  also have "\<dots> \<longleftrightarrow> (\<exists>v. tested_violation dateParse fm v)"
    unfolding set_errs by blast
  finally have nonempty: "?errs \<noteq> [] \<longleftrightarrow> (\<exists>v. tested_violation dateParse fm v)" .
  have fails: "(\<exists>msg. validateFrontmatter dateParse fm file = Inl msg) \<longleftrightarrow> ?errs \<noteq> []"
    unfolding validateFrontmatter_unfold by simp
  have report: "validateFrontmatter dateParse fm file = Inl msg \<longrightarrow>
      (\<exists>errs. msg = ''Frontmatter validation failed in '' @ file @ '': '' @ join '', '' errs \<and>
              distinct errs \<and> set errs = describe fm ` {v. tested_violation dateParse fm v})"
  proof
    assume "validateFrontmatter dateParse fm file = Inl msg"
    then have "msg = ''Frontmatter validation failed in '' @ file @ '': '' @ join '', '' ?errs"
      unfolding validateFrontmatter_unfold by (cases "?errs = []") simp_all
    with dist set_errs
    show "\<exists>errs. msg = ''Frontmatter validation failed in '' @ file @ '': '' @ join '', '' errs \<and>
              distinct errs \<and> set errs = describe fm ` {v. tested_violation dateParse fm v}"
      by blast
  qed
  from fails nonempty report show ?thesis by blast
qed

theorem validateFrontmatter_reports_all_witness:
  "validateFrontmatter (\<lambda>s. None) fm_no_cover ''post.md'' =
     Inl (''Frontmatter validation failed in post.md: missing 'mainImage', missing 'mainImageAlt'' @ [CHR 0x27]) \<and>
   (\<exists>errs. ''Frontmatter validation failed in post.md: missing 'mainImage', missing 'mainImageAlt'' @ [CHR 0x27] =
             ''Frontmatter validation failed in '' @ ''post.md'' @ '': '' @ join '', '' errs \<and>
           distinct errs \<and>
           set errs = describe fm_no_cover ` {v. tested_violation (\<lambda>s. None) fm_no_cover v})"
proof -
  have run: "validateFrontmatter (\<lambda>s. None) fm_no_cover ''post.md'' =
     Inl (''Frontmatter validation failed in post.md: missing 'mainImage', missing 'mainImageAlt'' @ [CHR 0x27])"
    by (simp add: validateFrontmatter_def validation_errors_def fm_no_cover_def Let_def)
  have all: "validateFrontmatter (\<lambda>s. None) fm_no_cover ''post.md'' =
        Inl (''Frontmatter validation failed in post.md: missing 'mainImage', missing 'mainImageAlt'' @ [CHR 0x27]) \<longrightarrow>
      (\<exists>errs. ''Frontmatter validation failed in post.md: missing 'mainImage', missing 'mainImageAlt'' @ [CHR 0x27] =
             ''Frontmatter validation failed in '' @ ''post.md'' @ '': '' @ join '', '' errs \<and>
           distinct errs \<and>
           set errs = describe fm_no_cover ` {v. tested_violation (\<lambda>s. None) fm_no_cover v})"
    by (rule conjunct2[OF validateFrontmatter_reports_all])
  from run all[rule_format, OF run] show ?thesis by (rule conjI)
qed

text \<open>
  Claim C7 as stated, for every frontmatter object, fails in both directions. A
  frontmatter whose title is the number \<^verbatim>\<open>0\<close> has every required field and a date that
  parses, yet validation fails and reports the title as missing. A frontmatter whose
  \<open>publishedAt\<close> is \<^verbatim>\<open>false\<close> has a date that is present and does not parse, yet
  validation passes.
\<close>

theorem validateFrontmatter_differs_from_stated:
  "validateFrontmatter parse_one_date (fm_complete\<lparr>fm_title := JNum 0\<rparr>) ''post.md'' =
     Inl (''Frontmatter validation failed in post.md: missing 'title'' @ [CHR 0x27]) \<and>
   filter (stated_violation parse_one_date (fm_complete\<lparr>fm_title := JNum 0\<rparr>))
     [MissingTitle, MissingAuthor, MissingMainImage, MissingMainImageAlt, InvalidPublishedAt] = [] \<and>
   validateFrontmatter parse_one_date (fm_complete\<lparr>fm_publishedAt := JBool False\<rparr>) ''post.md'' =
     Inr () \<and>
   filter (stated_violation parse_one_date (fm_complete\<lparr>fm_publishedAt := JBool False\<rparr>))
     [MissingTitle, MissingAuthor, MissingMainImage, MissingMainImageAlt, InvalidPublishedAt] =
     [InvalidPublishedAt]"
  by code_simp

section \<open>Extraction of inline images\<close>

text \<open>An image reference record, as \<^verbatim>\<open>extractInlineImages\<close> pushes it.\<close>

record image_ref =
  img_token :: string
  img_alt :: string
  img_src :: string
  img_caption :: string

text \<open>
  The capture groups of one match of \<^verbatim>\<open>IMG_RE\<close>: the alt text, the source in angle
  brackets or the plain source (one of the two is \<^verbatim>\<open>undefined\<close>), and the optional
  caption.
\<close>

record img_match =
  m_alt :: string
  m_angleSrc :: "string option"
  m_plainSrc :: "string option"
  m_caption :: "string option"

text \<open>
  The regular expression is
  \<^verbatim>\<open>!\[([^\]]*)\]\(\s*(?:<([^>]+)>|([^\s)]+))\s*(?:"([^"]+)")?\s*\)\<close>.
  The functions below match it at the start of a string, trying the alternatives in the
  order a backtracking matcher does and returning the first success with the text left
  after the match.

  \<open>match_tail\<close> is the part after the source,
  \<^verbatim>\<open>\s*(?:"([^"]+)")?\s*\)\<close>: white space, then the quoted caption if one is
  there and the match can be completed with it, else no caption.
\<close>

definition match_caption :: "string \<Rightarrow> (string option \<times> string) option" where
  "match_caption s =
     (case s of
        [] \<Rightarrow> None
      | c # r \<Rightarrow>
          if c \<noteq> CHR 0x22 then None
          else (let cap = takeWhile (\<lambda>x. x \<noteq> CHR 0x22) r;
                    r1 = dropWhile (\<lambda>x. x \<noteq> CHR 0x22) r
                in if cap = [] then None
                   else (case r1 of
                           [] \<Rightarrow> None
                         | q # r2 \<Rightarrow>
                             (case dropWhile is_space r2 of
                                [] \<Rightarrow> None
                              | p # rest \<Rightarrow> if p = CHR '')'' then Some (Some cap, rest) else None))))"

definition match_tail :: "string \<Rightarrow> (string option \<times> string) option" where
  "match_tail s =
     (let s1 = dropWhile is_space s
      in case match_caption s1 of
           Some res \<Rightarrow> Some res
         | None \<Rightarrow>
             (case s1 of
                [] \<Rightarrow> None
              | p # rest \<Rightarrow> if p = CHR '')'' then Some (None, rest) else None))"

text \<open>The first alternative of the source, \<^verbatim>\<open><([^>]+)>\<close>, followed by the tail.\<close>

definition match_angle :: "string \<Rightarrow> (string \<times> string option \<times> string) option" where
  "match_angle s =
     (case s of
        [] \<Rightarrow> None
      | c # r \<Rightarrow>
          if c \<noteq> CHR ''<'' then None
          else (let src = takeWhile (\<lambda>x. x \<noteq> CHR ''>'') r;
                    r1 = dropWhile (\<lambda>x. x \<noteq> CHR ''>'') r
                in if src = [] then None
                   else (case r1 of
                           [] \<Rightarrow> None
                         | q # r2 \<Rightarrow>
                             (case match_tail r2 of
                                None \<Rightarrow> None
                              | Some (cap, rest) \<Rightarrow> Some (src, cap, rest)))))"

text \<open>
  The second alternative, \<^verbatim>\<open>([^\s)]+)\<close>: greedy, so the longest run is tried first
  and then each shorter one down to a single character.
\<close>

fun try_plain :: "string \<Rightarrow> nat \<Rightarrow> (string \<times> string option \<times> string) option" where
  "try_plain s 0 = None"
| "try_plain s (Suc k) =
     (case match_tail (drop (Suc k) s) of
        Some (cap, rest) \<Rightarrow> Some (take (Suc k) s, cap, rest)
      | None \<Rightarrow> try_plain s k)"

definition match_plain :: "string \<Rightarrow> (string \<times> string option \<times> string) option" where
  "match_plain s = try_plain s (length (takeWhile (\<lambda>x. \<not> is_space x \<and> x \<noteq> CHR '')'') s))"

definition match_img :: "string \<Rightarrow> (img_match \<times> string) option" where
  "match_img s =
     (case s of
        c1 # c2 # s1 \<Rightarrow>
          if c1 \<noteq> CHR ''!'' \<or> c2 \<noteq> CHR ''['' then None
          else (case dropWhile (\<lambda>x. x \<noteq> CHR '']'') s1 of
                  c3 # c4 # s3 \<Rightarrow>
                    if c4 \<noteq> CHR ''('' then None
                    else (let alt = takeWhile (\<lambda>x. x \<noteq> CHR '']'') s1;
                              s4 = dropWhile is_space s3
                          in case match_angle s4 of
                               Some (src, cap, rest) \<Rightarrow>
                                 Some (\<lparr>m_alt = alt, m_angleSrc = Some src, m_plainSrc = None,
                                        m_caption = cap\<rparr>, rest)
                             | None \<Rightarrow>
                                 (case match_plain s4 of
                                    Some (src, cap, rest) \<Rightarrow>
                                      Some (\<lparr>m_alt = alt, m_angleSrc = None, m_plainSrc = Some src,
                                             m_caption = cap\<rparr>, rest)
                                  | None \<Rightarrow> None))
                | _ \<Rightarrow> None)
      | _ \<Rightarrow> None)"

text \<open>The placeholder token for the image number \<open>n\<close>.\<close>

definition token :: "nat \<Rightarrow> string" where
  "token n = ''[[[SANITY_IMAGE_'' @ show_nat n @ '']]]''"

text \<open>
  The callback of \<^verbatim>\<open>markdown.replace(IMG_RE, ...)\<close>: \<open>n\<close> is \<^verbatim>\<open>images.length\<close>
  when the match is found. \<^verbatim>\<open>(x || "")\<close> turns a missing or empty group into the
  empty string.
\<close>

definition or_empty :: "string option \<Rightarrow> string" where
  "or_empty x = (case x of None \<Rightarrow> [] | Some s \<Rightarrow> s)"

definition image_of_match :: "nat \<Rightarrow> img_match \<Rightarrow> image_ref" where
  "image_of_match n m =
     \<lparr>img_token = token n,
      img_alt = trim (m_alt m),
      img_src = trim (case m_angleSrc m of
                        Some a \<Rightarrow> if a \<noteq> [] then a else or_empty (m_plainSrc m)
                      | None \<Rightarrow> or_empty (m_plainSrc m)),
      img_caption = trim (or_empty (m_caption m))\<rparr>"

definition token_paragraph :: "nat \<Rightarrow> string" where
  "token_paragraph n = [CHR 0x0A, CHR 0x0A] @ token n @ [CHR 0x0A, CHR 0x0A]"
lemma dropWhile_Cons_shorter: "dropWhile P xs = y # ys \<Longrightarrow> length ys < length xs"
  using length_dropWhile_le[of P xs] by simp

lemma match_caption_shorter: "match_caption s = Some (cap, rest) \<Longrightarrow> length rest < length s"
  by (auto simp: match_caption_def Let_def split: list.splits if_splits
           dest!: dropWhile_Cons_shorter)

lemma match_tail_shorter: "match_tail s = Some (cap, rest) \<Longrightarrow> length rest < length s"
proof -
  assume a: "match_tail s = Some (cap, rest)"
  let ?s1 = "dropWhile is_space s"
  have le: "length ?s1 \<le> length s" by (rule length_dropWhile_le)
  show ?thesis
  proof (cases "match_caption ?s1")
    case (Some res)
    with a have "match_caption ?s1 = Some (cap, rest)" by (simp add: match_tail_def Let_def)
    from match_caption_shorter[OF this] le show ?thesis by simp
  next
    case None
    with a have "\<exists>p. ?s1 = p # rest"
      by (auto simp: match_tail_def Let_def split: list.splits if_splits)
    with le show ?thesis by auto
  qed
qed

lemma match_angle_shorter: "match_angle s = Some (src, cap, rest) \<Longrightarrow> length rest < length s"
  by (auto simp: match_angle_def Let_def split: list.splits if_splits option.splits
           dest!: dropWhile_Cons_shorter match_tail_shorter)

lemma try_plain_shorter: "try_plain s k = Some (src, cap, rest) \<Longrightarrow> length rest < length s"
proof (induction k)
  case 0
  then show ?case by simp
next
  case (Suc k)
  show ?case
  proof (cases "match_tail (drop (Suc k) s)")
    case None
    with Suc show ?thesis by simp
  next
    case (Some res)
    with Suc.prems have "match_tail (drop (Suc k) s) = Some (cap, rest)" by (cases res) simp
    from match_tail_shorter[OF this] show ?thesis by simp
  qed
qed

lemma match_img_shorter: "match_img s = Some (m, rest) \<Longrightarrow> length rest < length s"
proof -
  assume a: "match_img s = Some (m, rest)"
  then obtain c1 c2 s1 where s: "s = c1 # c2 # s1"
    by (cases s rule: list.exhaust[case_product list.exhaust])
       (auto simp: match_img_def split: list.splits)
  let ?d = "dropWhile (\<lambda>x. x \<noteq> CHR '']'') s1"
  from a s obtain c3 c4 s3 where d: "?d = c3 # c4 # s3"
    by (auto simp: match_img_def split: list.splits if_splits)
  let ?s4 = "dropWhile is_space s3"
  have "length ?d \<le> length s1" by (rule length_dropWhile_le)
  with d have l3: "length s3 < length s1" by simp
  have l4: "length ?s4 \<le> length s3" by (rule length_dropWhile_le)
  have "length rest < length ?s4"
  proof (cases "match_angle ?s4")
    case (Some r)
    with a s d obtain src cap where "match_angle ?s4 = Some (src, cap, rest)"
      by (cases r) (auto simp: match_img_def Let_def split: if_splits)
    from match_angle_shorter[OF this] show ?thesis .
  next
    case None
    with a s d obtain src cap where "match_plain ?s4 = Some (src, cap, rest)"
      by (auto simp: match_img_def Let_def split: if_splits option.splits)
    then show ?thesis unfolding match_plain_def by (rule try_plain_shorter)
  qed
  with l3 l4 s show ?thesis by simp
qed

text \<open>
  The scan of \<^verbatim>\<open>String.prototype.replace\<close> with the global flag: the leftmost match
  is replaced and the scan goes on after it; a character at which nothing matches is
  copied. \<open>n\<close> is the number of images found so far.
\<close>

function extract_from :: "nat \<Rightarrow> string \<Rightarrow> string \<times> image_ref list" where
  "extract_from n [] = ([], [])"
| "extract_from n (c # cs) =
     (case match_img (c # cs) of
        Some (m, rest) \<Rightarrow>
          (let (out, images) = extract_from (Suc n) rest
           in (token_paragraph n @ out, image_of_match n m # images))
      | None \<Rightarrow>
          (let (out, images) = extract_from n cs
           in (c # out, images)))"
  by pat_completeness auto
termination
  by (relation "measure (\<lambda>(n, s). length s)") (auto dest: match_img_shorter)

record extraction =
  rewrittenMarkdown :: string
  images :: "image_ref list"

definition extractInlineImages :: "string \<Rightarrow> extraction" where
  "extractInlineImages markdown =
     (let (out, imgs) = extract_from 0 markdown
      in \<lparr>rewrittenMarkdown = out, images = imgs\<rparr>)"

text \<open>A text that already holds the first placeholder, followed by one image.\<close>

definition md_lookalike :: string where
  "md_lookalike = ''[[[SANITY_IMAGE_0]]] ![a](b.png)''"

subsection \<open>Facts about the decimal rendering\<close>

lemma show_nat_nonempty: "show_nat n \<noteq> []"
  by (subst show_nat.simps) simp

lemma digit_char_inj: "a < 10 \<Longrightarrow> b < 10 \<Longrightarrow> digit_char a = digit_char b \<Longrightarrow> a = b"
proof -
  assume a: "a < 10" and b: "b < 10" and eq: "digit_char a = digit_char b"
  from eq have "(of_char (char_of (48 + a)) :: nat) = of_char (char_of (48 + b))"
    by (simp add: digit_char_def)
  then have "(48 + a) mod 256 = (48 + b) mod 256" by simp
  with a b show "a = b" by simp
qed

lemma show_nat_inj: "show_nat n = show_nat m \<Longrightarrow> n = m"
proof (induction n arbitrary: m rule: show_nat.induct)
  case (1 n)
  show ?case
  proof (cases "n < 10")
    case n: True
    show ?thesis
    proof (cases "m < 10")
      case True
      with n "1.prems" show ?thesis
        by (simp add: show_nat.simps[of n] show_nat.simps[of m] digit_char_inj)
    next
      case False
      with n "1.prems" have "[digit_char n] = show_nat (m div 10) @ [digit_char (m mod 10)]"
        by (simp add: show_nat.simps[of n] show_nat.simps[of m])
      then have "show_nat (m div 10) = []" by (metis append1_eq_conv append_Nil)
      with show_nat_nonempty show ?thesis by blast
    qed
  next
    case n: False
    show ?thesis
    proof (cases "m < 10")
      case True
      with n "1.prems" have "show_nat (n div 10) @ [digit_char (n mod 10)] = [digit_char m]"
        by (simp add: show_nat.simps[of n] show_nat.simps[of m])
      then have "show_nat (n div 10) = []" by (metis append1_eq_conv append_Nil)
      with show_nat_nonempty show ?thesis by blast
    next
      case False
      with n "1.prems" have
        "show_nat (n div 10) @ [digit_char (n mod 10)] = show_nat (m div 10) @ [digit_char (m mod 10)]"
        by (simp add: show_nat.simps[of n] show_nat.simps[of m])
      then have d: "show_nat (n div 10) = show_nat (m div 10)"
        and r: "digit_char (n mod 10) = digit_char (m mod 10)" by simp_all
      from "1.IH"[OF n d] have "n div 10 = m div 10" .
      moreover from r have "n mod 10 = m mod 10" by (rule digit_char_inj[rotated 2]) simp_all
      ultimately show ?thesis by (metis div_mult_mod_eq)
    qed
  qed
qed

lemma token_inj: "token n = token m \<Longrightarrow> n = m"
  by (rule show_nat_inj) (simp add: token_def)

lemma distinct_map_token: "distinct (map token [a..<b])"
  by (simp add: distinct_map inj_on_def token_inj)

subsection \<open>Facts about the scan\<close>







lemma upt_shift: "[n..<n + Suc k] = n # [Suc n..<Suc n + k]"
proof -
  have "[n..<n + Suc k] = n # [Suc n..<n + Suc k]" by (rule upt_conv_Cons) simp
  then show ?thesis by simp
qed

lemma extract_from_no_match:
  "match_img (c # cs) = None \<Longrightarrow>
   extract_from n (c # cs) = (c # fst (extract_from n cs), snd (extract_from n cs))"
  by (simp add: split_beta)

lemma extract_from_match:
  "match_img (c # cs) = Some (m, rest) \<Longrightarrow>
   extract_from n (c # cs) =
     (token_paragraph n @ fst (extract_from (Suc n) rest),
      image_of_match n m # snd (extract_from (Suc n) rest))"
  by (simp add: split_beta)

lemma extract_from_tokens:
  "map img_token (snd (extract_from n s)) = map token [n..<n + length (snd (extract_from n s))]"
proof (induction n s rule: extract_from.induct)
  case (1 n)
  then show ?case by simp
next
  case (2 n c cs)
  show ?case
  proof (cases "match_img (c # cs)")
    case None
    from "2.IH"(1)[OF None] show ?thesis
      unfolding extract_from_no_match[OF None] by simp
  next
    case (Some r)
    obtain m rest where r: "r = (m, rest)" by (cases r)
    note hit = Some[unfolded r]
    let ?k = "length (snd (extract_from (Suc n) rest))"
    from "2.IH"(2)[OF hit refl] have
      "map img_token (snd (extract_from (Suc n) rest)) = map token [Suc n..<Suc n + ?k]" .
    then show ?thesis
      unfolding extract_from_match[OF hit]
      by (simp only: snd_conv list.map length_Cons upt_shift) (simp add: image_of_match_def)
  qed
qed





section \<open>Portable Text blocks\<close>

text \<open>
  A mark definition of a text block (a link target), a child of a block and a block.
  JavaScript objects are open, so each record keeps the properties the importer reads
  and, in its last field, every other property as a list of name and value. A property
  that is absent is \<open>None\<close>; \<open>c_text\<close> is \<open>None\<close> also when \<^verbatim>\<open>typeof text\<close> is not
  \<^verbatim>\<open>"string"\<close>, and \<open>b_markDefs\<close>, \<open>b_children\<close> when the property is not an array.
  An image block keeps the \<^verbatim>\<open>_ref\<close> of its asset reference.
\<close>

record markdef =
  md_key :: string
  md_type :: string
  md_href :: string

record child =
  c_type :: string
  c_key :: "string option"
  c_text :: "string option"
  c_marks :: "string list"
  c_other :: "(string \<times> string) list"

record block =
  b_type :: string
  b_key :: "string option"
  b_style :: "string option"
  b_markDefs :: "markdef list option"
  b_children :: "child list option"
  b_asset :: "string option"
  b_alt :: "string option"
  b_caption :: "string option"
  b_other :: "(string \<times> string) list"

text \<open>Truthiness of an optional string property: present and not empty.\<close>

definition truthy_str :: "string option \<Rightarrow> bool" where
  "truthy_str x = (case x of None \<Rightarrow> False | Some s \<Rightarrow> s \<noteq> [])"

text \<open>
  \<^verbatim>\<open>generateKey()\<close> draws random bytes. The source of randomness is a parameter
  \<open>gen\<close>: \<open>gen n\<close> is the key the \<open>n\<close>-th call returns, and every function that
  generates keys takes the number of calls made so far and returns it updated.
\<close>

type_synonym keygen = "nat \<Rightarrow> string"

text \<open>\<^verbatim>\<open>x._key ? x : { ...x, _key: generateKey() }\<close> for a child and for a block.\<close>

definition child_with_key :: "keygen \<Rightarrow> nat \<Rightarrow> child \<Rightarrow> child \<times> nat" where
  "child_with_key gen n c =
     (if truthy_str (c_key c) then (c, n) else (c\<lparr>c_key := Some (gen n)\<rparr>, Suc n))"

definition block_with_key :: "keygen \<Rightarrow> nat \<Rightarrow> block \<Rightarrow> block \<times> nat" where
  "block_with_key gen n b =
     (if truthy_str (b_key b) then (b, n) else (b\<lparr>b_key := Some (gen n)\<rparr>, Suc n))"

text \<open>
  The text a block's spans give when joined, as \<^verbatim>\<open>isTokenOnlyBlock\<close> and
  \<^verbatim>\<open>blockContainsAnyToken\<close> compute it (a span whose text is not a string adds
  nothing in either).
\<close>

definition span_text :: "child \<Rightarrow> string" where
  "span_text c = (case c_text c of None \<Rightarrow> [] | Some t \<Rightarrow> t)"

definition joined_text :: "child list \<Rightarrow> string" where
  "joined_text cs = concat (map span_text (filter (\<lambda>c. c_type c = ''span'') cs))"

definition isTokenOnlyBlock :: "block \<Rightarrow> string \<Rightarrow> bool" where
  "isTokenOnlyBlock b tok =
     (case b_children b of
        None \<Rightarrow> False
      | Some cs \<Rightarrow> b_type b = ''block'' \<and> trim (joined_text cs) = tok)"

definition blockContainsAnyToken :: "block \<Rightarrow> string list \<Rightarrow> bool" where
  "blockContainsAnyToken b tokens =
     (case b_children b of
        None \<Rightarrow> False
      | Some cs \<Rightarrow>
          b_type b = ''block'' \<and>
          list_ex (\<lambda>t. includes_str
                     (concat (map span_text
                        (filter (\<lambda>c. c_type c = ''span'' \<and> c_text c \<noteq> None) cs))) t) tokens)"

definition meaningful_child :: "child \<Rightarrow> bool" where
  "meaningful_child c =
     (if c_type c \<noteq> ''span'' then True
      else case c_text c of None \<Rightarrow> False | Some t \<Rightarrow> length (trim t) > 0)"

definition hasMeaningfulChildren :: "block \<Rightarrow> bool" where
  "hasMeaningfulChildren b =
     (case b_children b of None \<Rightarrow> False | Some cs \<Rightarrow> list_ex meaningful_child cs)"

section \<open>Splitting a block at its tokens\<close>

text \<open>
  The paragraph under construction, \<^verbatim>\<open>current\<close>, as the source builds it: a fresh
  key, the style of the block being split or \<^verbatim>\<open>"normal"\<close>, its mark definitions or
  none, and no children yet.
\<close>

definition style_or_normal :: "block \<Rightarrow> string" where
  "style_or_normal blk = (if truthy_str (b_style blk) then the (b_style blk) else ''normal'')"

definition markDefs_or_empty :: "block \<Rightarrow> markdef list" where
  "markDefs_or_empty blk = (case b_markDefs blk of None \<Rightarrow> [] | Some ds \<Rightarrow> ds)"

definition new_paragraph :: "keygen \<Rightarrow> nat \<Rightarrow> block \<Rightarrow> block" where
  "new_paragraph gen n blk =
     \<lparr>b_type = ''block'', b_key = Some (gen n), b_style = Some (style_or_normal blk),
      b_markDefs = Some (markDefs_or_empty blk), b_children = Some [],
      b_asset = None, b_alt = None, b_caption = None, b_other = []\<rparr>"

text \<open>\<^verbatim>\<open>current.children.push(c)\<close>.\<close>

definition push_child :: "child \<Rightarrow> block \<Rightarrow> block" where
  "push_child c b = b\<lparr>b_children := map_option (\<lambda>cs. cs @ [c]) (b_children b)\<rparr>"

text \<open>The variables of \<^verbatim>\<open>splitBlockByTokensPreserveMarks\<close> and the key counter.\<close>

record split_state =
  st_out :: "block list"
  st_current :: block
  st_next :: nat

definition push_span :: "keygen \<Rightarrow> child \<Rightarrow> string \<Rightarrow> split_state \<Rightarrow> split_state" where
  "push_span gen c text st =
     st\<lparr>st_current := push_child (c\<lparr>c_key := Some (gen (st_next st)), c_text := Some text\<rparr>)
                         (st_current st),
        st_next := Suc (st_next st)\<rparr>"

definition flushCurrent :: "keygen \<Rightarrow> block \<Rightarrow> split_state \<Rightarrow> split_state" where
  "flushCurrent gen blk st =
     \<lparr>st_out = (if hasMeaningfulChildren (st_current st) then st_out st @ [st_current st]
                else st_out st),
      st_current = new_paragraph gen (st_next st) blk,
      st_next = Suc (st_next st)\<rparr>"

text \<open>
  \<^verbatim>\<open>{ ...tokenToImageBlock[t], _key: generateKey() }\<close>. The map from tokens to image
  blocks is a list of pairs in the order of \<^verbatim>\<open>Object.keys\<close>. Spreading
  \<^verbatim>\<open>undefined\<close> gives an object with the key alone.
\<close>

definition image_with_key :: "(string \<times> block) list \<Rightarrow> string \<Rightarrow> string \<Rightarrow> block" where
  "image_with_key tmap t k =
     (case map_of tmap t of
        Some img \<Rightarrow> img\<lparr>b_key := Some k\<rparr>
      | None \<Rightarrow> \<lparr>b_type = [], b_key = Some k, b_style = None, b_markDefs = None,
                 b_children = None, b_asset = None, b_alt = None, b_caption = None,
                 b_other = []\<rparr>)"

definition emit_image :: "keygen \<Rightarrow> (string \<times> block) list \<Rightarrow> string \<Rightarrow> split_state \<Rightarrow> split_state" where
  "emit_image gen tmap t st =
     st\<lparr>st_out := st_out st @ [image_with_key tmap t (gen (st_next st))],
        st_next := Suc (st_next st)\<rparr>"

text \<open>
  The inner \<^verbatim>\<open>for (const t of tokens)\<close> loop: the token with the least index in
  \<open>text\<close>, the earlier token winning a tie. \<open>best\<close> is the pair of \<^verbatim>\<open>nearestIdx\<close>
  and \<^verbatim>\<open>nearestToken\<close>, \<open>None\<close> for the initial \<^verbatim>\<open>Infinity\<close> and \<^verbatim>\<open>null\<close>.
\<close>

fun nearest_token :: "string list \<Rightarrow> string \<Rightarrow> (nat \<times> string) option \<Rightarrow> (nat \<times> string) option" where
  "nearest_token [] text best = best"
| "nearest_token (t # ts) text best =
     nearest_token ts text
       (case indexOf text t of
          None \<Rightarrow> best
        | Some idx \<Rightarrow>
            (case best of
               None \<Rightarrow> Some (idx, t)
             | Some (nearestIdx, nearestToken) \<Rightarrow>
                 if idx < nearestIdx then Some (idx, t) else best))"
lemma nearest_token_source:
  "nearest_token ts text best = Some (idx, t) \<Longrightarrow>
   best = Some (idx, t) \<or> (t \<in> set ts \<and> indexOf text t = Some idx)"
proof (induction ts arbitrary: best)
  case Nil
  then show ?case by simp
next
  case (Cons a ts)
  let ?b = "case indexOf text a of
              None \<Rightarrow> best
            | Some i \<Rightarrow>
                (case best of
                   None \<Rightarrow> Some (i, a)
                 | Some (nearestIdx, nearestToken) \<Rightarrow>
                     if i < nearestIdx then Some (i, a) else best)"
  from Cons.prems have "nearest_token ts text ?b = Some (idx, t)" by simp
  from Cons.IH[OF this] show ?case
    by (auto split: option.splits if_splits)
qed

lemma nearest_token_shorter:
  assumes "nearest_token ts text None = Some (idx, t)" and "t \<noteq> []"
  shows "length (drop (idx + length t) text) < length text"
proof -
  from nearest_token_source[OF assms(1)] have "indexOf text t = Some idx" by simp
  from indexOf_Some_decomp[OF this] have "idx + length t \<le> length text" by simp
  with assms(2) show ?thesis by (cases t) simp_all
qed

text \<open>
  The \<^verbatim>\<open>while (true)\<close> loop over one span: split \<open>text\<close> at the nearest token until
  none is left. \<^verbatim>\<open>!nearestToken\<close> also holds for the empty string.
\<close>

function split_text ::
  "keygen \<Rightarrow> block \<Rightarrow> string list \<Rightarrow> (string \<times> block) list \<Rightarrow> child \<Rightarrow> string \<Rightarrow>
   split_state \<Rightarrow> split_state" where
  "split_text gen blk tokens tmap c text st =
     (case nearest_token tokens text None of
        None \<Rightarrow> (if length text > 0 then push_span gen c text st else st)
      | Some (nearestIdx, nearestToken) \<Rightarrow>
          if nearestToken = [] then (if length text > 0 then push_span gen c text st else st)
          else
            (let before_text = take nearestIdx text;
                 after_text = drop (nearestIdx + length nearestToken) text;
                 st1 = (if length before_text > 0 then push_span gen c before_text st else st);
                 st2 = flushCurrent gen blk st1;
                 st3 = emit_image gen tmap nearestToken st2
             in split_text gen blk tokens tmap c after_text st3))"
  by pat_completeness auto
termination
  by (relation "measure (\<lambda>(gen, blk, tokens, tmap, c, text, st). length text)")
     (auto dest: nearest_token_shorter)

declare split_text.simps [simp del]

text \<open>
  The \<^verbatim>\<open>for (const child of block.children)\<close> loop. A child that is not a span, or
  whose text is not a string, is kept in the current paragraph, with a key if it had
  none.
\<close>

fun split_children ::
  "keygen \<Rightarrow> block \<Rightarrow> string list \<Rightarrow> (string \<times> block) list \<Rightarrow> child list \<Rightarrow>
   split_state \<Rightarrow> split_state" where
  "split_children gen blk tokens tmap [] st = st"
| "split_children gen blk tokens tmap (c # cs) st =
     split_children gen blk tokens tmap cs
       (case c_text c of
          None \<Rightarrow>
            (let (childWithKey, n) = child_with_key gen (st_next st) c
             in st\<lparr>st_current := push_child childWithKey (st_current st), st_next := n\<rparr>)
        | Some text \<Rightarrow>
            if c_type c \<noteq> ''span''
            then (let (childWithKey, n) = child_with_key gen (st_next st) c
                  in st\<lparr>st_current := push_child childWithKey (st_current st), st_next := n\<rparr>)
            else split_text gen blk tokens tmap c text st)"

text \<open>
  \<^verbatim>\<open>splitBlockByTokensPreserveMarks(block, tokens, tokenToImageBlock)\<close>, the keys
  drawn from position \<open>n\<close> on. \<open>None\<close> is the \<^verbatim>\<open>TypeError\<close> of iterating children
  that are not an array.
\<close>

definition splitBlockByTokensPreserveMarks ::
  "keygen \<Rightarrow> nat \<Rightarrow> block \<Rightarrow> string list \<Rightarrow> (string \<times> block) list \<Rightarrow> (block list \<times> nat) option" where
  "splitBlockByTokensPreserveMarks gen n blk tokens tmap =
     (case b_children blk of
        None \<Rightarrow> None
      | Some cs \<Rightarrow>
          (let st0 = \<lparr>st_out = [], st_current = new_paragraph gen n blk, st_next = Suc n\<rparr>;
               st1 = split_children gen blk tokens tmap cs st0;
               st2 = flushCurrent gen blk st1
           in Some (st_out st2, st_next st2)))"

text \<open>
  \<^verbatim>\<open>replaceTokensWithImageBlocksPreserveMarks\<close>: the loop over the blocks, with the
  tokens \<^verbatim>\<open>Object.keys(tokenToImageBlock)\<close>. \<^verbatim>\<open>tokens.find(...)\<close> gives the first
  token the block consists of; an empty token is falsy and does not count as found.
\<close>

fun replace_blocks ::
  "keygen \<Rightarrow> string list \<Rightarrow> (string \<times> block) list \<Rightarrow> block list \<Rightarrow> nat \<Rightarrow> (block list \<times> nat) option" where
  "replace_blocks gen tokens tmap [] n = Some ([], n)"
| "replace_blocks gen tokens tmap (b # bs) n =
     (case (if b_type b \<noteq> ''block''
            then (let (blockWithKey, n1) = block_with_key gen n b in Some ([blockWithKey], n1))
            else (case find (\<lambda>t. isTokenOnlyBlock b t) tokens of
                    Some tokenOnly \<Rightarrow>
                      if tokenOnly \<noteq> [] then Some ([image_with_key tmap tokenOnly (gen n)], Suc n)
                      else if blockContainsAnyToken b tokens
                           then splitBlockByTokensPreserveMarks gen n b tokens tmap
                           else Some ([b], n)
                  | None \<Rightarrow>
                      if blockContainsAnyToken b tokens
                      then splitBlockByTokensPreserveMarks gen n b tokens tmap
                      else Some ([b], n)))
      of None \<Rightarrow> None
       | Some (out1, n1) \<Rightarrow>
           (case replace_blocks gen tokens tmap bs n1 of
              None \<Rightarrow> None
            | Some (out2, n2) \<Rightarrow> Some (out1 @ out2, n2)))"

definition replaceTokensWithImageBlocksPreserveMarks ::
  "keygen \<Rightarrow> nat \<Rightarrow> block list \<Rightarrow> (string \<times> block) list \<Rightarrow> (block list \<times> nat) option" where
  "replaceTokensWithImageBlocksPreserveMarks gen n ptBlocks tokenToImageBlock =
     replace_blocks gen (map fst tokenToImageBlock) tokenToImageBlock ptBlocks n"

text \<open>\<^verbatim>\<open>ensureKeys\<close>: a key for every block and every child that has none.\<close>

fun children_with_keys :: "keygen \<Rightarrow> nat \<Rightarrow> child list \<Rightarrow> child list \<times> nat" where
  "children_with_keys gen n [] = ([], n)"
| "children_with_keys gen n (c # cs) =
     (let (c1, n1) = child_with_key gen n c;
          (cs1, n2) = children_with_keys gen n1 cs
      in (c1 # cs1, n2))"

fun ensureKeys :: "keygen \<Rightarrow> nat \<Rightarrow> block list \<Rightarrow> block list \<times> nat" where
  "ensureKeys gen n [] = ([], n)"
| "ensureKeys gen n (b # bs) =
     (let (blockWithKey, n1) = block_with_key gen n b;
          (b1, n2) = (case b_children blockWithKey of
                        None \<Rightarrow> (blockWithKey, n1)
                      | Some cs \<Rightarrow>
                          (let (cs1, n') = children_with_keys gen n1 cs
                           in (blockWithKey\<lparr>b_children := Some cs1\<rparr>, n')));
          (bs1, n3) = ensureKeys gen n2 bs
      in (b1 # bs1, n3))"

text \<open>\<^verbatim>\<open>filterUnsupportedBlocks\<close>, with the one unsupported type of the source.\<close>

definition filterUnsupportedBlocks :: "block list \<Rightarrow> block list" where
  "filterUnsupportedBlocks ptBlocks = filter (\<lambda>b. b_type b \<noteq> ''horizontal-rule'') ptBlocks"
section \<open>What splitting keeps\<close>

text \<open>
  \<open>copy_of c c'\<close>: the child \<open>c'\<close> is the child \<open>c\<close> but for its key and its text, and
  its text, if \<open>c\<close> has one, is a piece of the text of \<open>c\<close>. In particular both carry
  the same marks.
\<close>

definition copy_of :: "child \<Rightarrow> child \<Rightarrow> bool" where
  "copy_of c c' \<longleftrightarrow>
     c_type c' = c_type c \<and> c_marks c' = c_marks c \<and> c_other c' = c_other c \<and>
     (case c_text c of
        None \<Rightarrow> c_text c' = None
      | Some t \<Rightarrow> (\<exists>t'. c_text c' = Some t' \<and> sublist t' t))"

text \<open>
  \<open>paragraph_of blk cs b'\<close>: \<open>b'\<close> is a text block with the style and the mark
  definitions of \<open>blk\<close> (the defaults \<^verbatim>\<open>"normal"\<close> and none where \<open>blk\<close> has
  none), all of whose children are copies of children among \<open>cs\<close>.
\<close>

definition paragraph_of :: "block \<Rightarrow> child list \<Rightarrow> block \<Rightarrow> bool" where
  "paragraph_of blk cs b' \<longleftrightarrow>
     b_type b' = ''block'' \<and>
     b_style b' = Some (style_or_normal blk) \<and>
     b_markDefs b' = Some (markDefs_or_empty blk) \<and>
     (\<exists>cs'. b_children b' = Some cs' \<and> list_all (\<lambda>c'. list_ex (\<lambda>c. copy_of c c') cs) cs')"

definition split_inv :: "block \<Rightarrow> child list \<Rightarrow> (string \<times> block) list \<Rightarrow> split_state \<Rightarrow> bool" where
  "split_inv blk cs tmap st \<longleftrightarrow>
     list_all (\<lambda>b. (\<exists>t k. b = image_with_key tmap t k) \<or> paragraph_of blk cs b) (st_out st) \<and>
     paragraph_of blk cs (st_current st)"

text \<open>The paragraph of the specification's scenario, its token and the image it stands for.\<close>

definition scenario_span :: "string \<Rightarrow> string list \<Rightarrow> child" where
  "scenario_span t ms =
     \<lparr>c_type = ''span'', c_key = Some ''k'', c_text = Some t, c_marks = ms, c_other = []\<rparr>"

definition scenario_block :: block where
  "scenario_block =
     \<lparr>b_type = ''block'', b_key = Some ''b'', b_style = Some ''normal'',
      b_markDefs = Some [\<lparr>md_key = ''def1'', md_type = ''link'', md_href = ''https://example.com''\<rparr>],
      b_children = Some [scenario_span ''See '' [],
                         scenario_span ''this [[[SANITY_IMAGE_0]]] now.'' [''strong'', ''def1'']],
      b_asset = None, b_alt = None, b_caption = None, b_other = []\<rparr>"

definition scenario_image :: block where
  "scenario_image =
     \<lparr>b_type = ''image'', b_key = None, b_style = None, b_markDefs = None,
      b_children = None, b_asset = Some ''asset-1'', b_alt = Some ''cat'',
      b_caption = Some ''A cat'', b_other = []\<rparr>"

definition scenario_keys :: keygen where
  "scenario_keys n = ''K'' @ show_nat n"

text \<open>What the split of the scenario gives: text, image, text.\<close>

definition scenario_after :: block where
  "scenario_after =
     \<lparr>b_type = ''block'', b_key = Some ''K3'', b_style = Some ''normal'',
      b_markDefs = Some [\<lparr>md_key = ''def1'', md_type = ''link'', md_href = ''https://example.com''\<rparr>],
      b_children = Some [\<lparr>c_type = ''span'', c_key = Some ''K5'', c_text = Some '' now.'',
                          c_marks = [''strong'', ''def1''], c_other = []\<rparr>],
      b_asset = None, b_alt = None, b_caption = None, b_other = []\<rparr>"

definition scenario_out :: "block list" where
  "scenario_out =
     [\<lparr>b_type = ''block'', b_key = Some ''K0'', b_style = Some ''normal'',
       b_markDefs = Some [\<lparr>md_key = ''def1'', md_type = ''link'', md_href = ''https://example.com''\<rparr>],
       b_children = Some [\<lparr>c_type = ''span'', c_key = Some ''K1'', c_text = Some ''See '',
                           c_marks = [], c_other = []\<rparr>,
                          \<lparr>c_type = ''span'', c_key = Some ''K2'', c_text = Some ''this '',
                           c_marks = [''strong'', ''def1''], c_other = []\<rparr>],
       b_asset = None, b_alt = None, b_caption = None, b_other = []\<rparr>,
      \<lparr>b_type = ''image'', b_key = Some ''K4'', b_style = None, b_markDefs = None,
       b_children = None, b_asset = Some ''asset-1'', b_alt = Some ''cat'',
       b_caption = Some ''A cat'', b_other = []\<rparr>,
      scenario_after]"

subsection \<open>The invariant of the split\<close>

lemma copy_of_refl_key: "copy_of c (c\<lparr>c_key := k\<rparr>)"
  by (simp add: copy_of_def split: option.splits)

lemma copy_of_self: "copy_of c c"
  by (simp add: copy_of_def split: option.splits)

lemma copy_of_fragment:
  "c_text c = Some orig \<Longrightarrow> sublist frag orig \<Longrightarrow> copy_of c (c\<lparr>c_key := k, c_text := Some frag\<rparr>)"
  by (simp add: copy_of_def)

lemma paragraph_of_new: "paragraph_of blk cs (new_paragraph gen n blk)"
  by (simp add: paragraph_of_def new_paragraph_def)

lemma paragraph_of_push:
  "paragraph_of blk cs b \<Longrightarrow> c \<in> set cs \<Longrightarrow> copy_of c c' \<Longrightarrow> paragraph_of blk cs (push_child c' b)"
  by (auto simp: paragraph_of_def push_child_def list_ex_iff)

lemma split_inv_push_span:
  assumes "split_inv blk cs tmap st" "c \<in> set cs" "c_text c = Some orig" "sublist frag orig"
  shows "split_inv blk cs tmap (push_span gen c frag st)"
proof -
  have "copy_of c (c\<lparr>c_key := Some (gen (st_next st)), c_text := Some frag\<rparr>)"
    using assms(3,4) by (rule copy_of_fragment)
  with assms(1,2) show ?thesis
    by (simp add: split_inv_def push_span_def paragraph_of_push)
qed

lemma split_inv_push_keyed:
  assumes "split_inv blk cs tmap st" "c \<in> set cs" "child_with_key gen (st_next st) c = (c', n)"
  shows "split_inv blk cs tmap (st\<lparr>st_current := push_child c' (st_current st), st_next := n\<rparr>)"
proof -
  from assms(3) have "copy_of c c'"
    by (auto simp: child_with_key_def copy_of_self copy_of_refl_key split: if_splits)
  with assms(1,2) show ?thesis
    by (simp add: split_inv_def paragraph_of_push)
qed

lemma split_inv_flush:
  "split_inv blk cs tmap st \<Longrightarrow> split_inv blk cs tmap (flushCurrent gen blk st)"
  by (simp add: split_inv_def flushCurrent_def paragraph_of_new)

lemma split_inv_emit:
  "split_inv blk cs tmap st \<Longrightarrow> split_inv blk cs tmap (emit_image gen tmap t st)"
  by (auto simp: split_inv_def emit_image_def)

lemma nearest_token_index:
  "nearest_token ts text None = Some (idx, t) \<Longrightarrow> indexOf text t = Some idx \<and> t \<in> set ts"
  using nearest_token_source[of ts "text" None idx t] by simp

lemma split_text_hit:
  "nearest_token tokens s None = Some (idx, t) \<Longrightarrow> t \<noteq> [] \<Longrightarrow>
   split_text gen blk tokens tmap c s st =
     split_text gen blk tokens tmap c (drop (idx + length t) s)
       (emit_image gen tmap t
          (flushCurrent gen blk
             (if length (take idx s) > 0 then push_span gen c (take idx s) st else st)))"
  by (subst split_text.simps) (simp add: Let_def)

lemma split_text_miss:
  "nearest_token tokens s None = None \<or> (\<exists>idx. nearest_token tokens s None = Some (idx, [])) \<Longrightarrow>
   split_text gen blk tokens tmap c s st = (if length s > 0 then push_span gen c s st else st)"
  by (subst split_text.simps) auto

lemma split_text_inv:
  "c \<in> set cs \<Longrightarrow> c_text c = Some orig \<Longrightarrow> sublist s orig \<Longrightarrow> split_inv blk cs tmap st \<Longrightarrow>
   split_inv blk cs tmap (split_text gen blk tokens tmap c s st)"
proof (induction gen blk tokens tmap c s st rule: split_text.induct)
  case (1 gen blk tokens tmap c s st)
  note mem = "1.prems"(1) and orig = "1.prems"(2) and sub = "1.prems"(3) and inv = "1.prems"(4)
  have fin: "split_inv blk cs tmap (if length s > 0 then push_span gen c s st else st)"
    using inv mem orig sub by (simp add: split_inv_push_span)
  show ?case
  proof (cases "nearest_token tokens s None")
    case None
    then have "split_text gen blk tokens tmap c s st =
        (if length s > 0 then push_span gen c s st else st)"
      by (intro split_text_miss disjI1)
    then show ?thesis using fin by (simp only:)
  next
    case (Some p)
    obtain idx t where p: "p = (idx, t)" by (cases p)
    note hit = Some[unfolded p]
    show ?thesis
    proof (cases "t = []")
      case True
      with hit have "nearest_token tokens s None = None \<or>
          (\<exists>idx. nearest_token tokens s None = Some (idx, []))" by blast
      then have "split_text gen blk tokens tmap c s st =
          (if length s > 0 then push_span gen c s st else st)"
        by (rule split_text_miss)
      then show ?thesis using fin by (simp only:)
    next
      case False
      let ?before = "take idx s"
      let ?after = "drop (idx + length t) s"
      let ?st1 = "if length ?before > 0 then push_span gen c ?before st else st"
      let ?st3 = "emit_image gen tmap t (flushCurrent gen blk ?st1)"
      have "sublist ?before s" by (rule sublist_take)
      then have sb: "sublist ?before orig" using sub by (rule sublist_order.order.trans)
      have "sublist ?after s" by (rule sublist_drop)
      then have sa: "sublist ?after orig" using sub by (rule sublist_order.order.trans)
      have "split_inv blk cs tmap ?st1"
        using inv sb mem orig by (simp add: split_inv_push_span)
      then have i3: "split_inv blk cs tmap ?st3"
        by (intro split_inv_emit split_inv_flush)
      have "split_inv blk cs tmap (split_text gen blk tokens tmap c ?after ?st3)"
        by (rule "1.IH"[OF hit refl False refl refl refl refl refl mem orig sa i3])
      then show ?thesis by (simp only: split_text_hit[OF hit False])
    qed
  qed
qed

lemma split_children_inv:
  "set rest \<subseteq> set cs \<Longrightarrow> split_inv blk cs tmap st \<Longrightarrow>
   split_inv blk cs tmap (split_children gen blk tokens tmap rest st)"
proof (induction rest arbitrary: st)
  case Nil
  then show ?case by simp
next
  case (Cons c rest)
  from Cons.prems have c: "c \<in> set cs" and rest: "set rest \<subseteq> set cs" by simp_all
  obtain c' n where k: "child_with_key gen (st_next st) c = (c', n)"
    by (cases "child_with_key gen (st_next st) c")
  have keyed: "split_inv blk cs tmap (st\<lparr>st_current := push_child c' (st_current st), st_next := n\<rparr>)"
    using Cons.prems(2) c k by (rule split_inv_push_keyed)
  show ?case
  proof (cases "c_text c")
    case None
    with k keyed Cons.IH[OF rest] show ?thesis by simp
  next
    case (Some s)
    show ?thesis
    proof (cases "c_type c \<noteq> ''span''")
      case True
      with Some k keyed Cons.IH[OF rest] show ?thesis by simp
    next
      case False
      have "split_inv blk cs tmap (split_text gen blk tokens tmap c s st)"
        using c Some sublist_order.order.refl Cons.prems(2) by (rule split_text_inv)
      with Some False Cons.IH[OF rest] show ?thesis by simp
    qed
  qed
qed

lemma splitBlock_inv:
  assumes "splitBlockByTokensPreserveMarks gen n blk tokens tmap = Some (out, n')"
  shows "\<exists>cs. b_children blk = Some cs \<and>
           list_all (\<lambda>b. (\<exists>t k. b = image_with_key tmap t k) \<or> paragraph_of blk cs b) out"
proof -
  from assms obtain cs where cs: "b_children blk = Some cs"
    by (cases "b_children blk") (simp_all add: splitBlockByTokensPreserveMarks_def)
  let ?st0 = "\<lparr>st_out = [], st_current = new_paragraph gen n blk, st_next = Suc n\<rparr>"
  have "split_inv blk cs tmap ?st0"
    by (simp add: split_inv_def paragraph_of_new)
  then have "split_inv blk cs tmap (split_children gen blk tokens tmap cs ?st0)"
    by (intro split_children_inv) simp_all
  then have "split_inv blk cs tmap (flushCurrent gen blk (split_children gen blk tokens tmap cs ?st0))"
    by (rule split_inv_flush)
  moreover from assms cs have
    "out = st_out (flushCurrent gen blk (split_children gen blk tokens tmap cs ?st0))"
    by (simp add: splitBlockByTokensPreserveMarks_def Let_def)
  ultimately show ?thesis using cs by (simp add: split_inv_def)
qed
text \<open>
  Claim C2. Every block that \<^verbatim>\<open>splitBlockByTokensPreserveMarks\<close> returns is either an
  image block of the token map (with a key) or a text block that carries the style
  label and the mark definitions of the block that was split (\<^verbatim>\<open>"normal"\<close> and no
  definitions where the original has none). Every child of such a text block comes
  from a child of the original: same type, same marks, same further properties, and,
  for a span, a text that is a piece of the original span's text. So a fragment before
  or after a token differs from its span in key and text only.
\<close>

theorem split_preserves_marks:
  assumes "splitBlockByTokensPreserveMarks gen n blk tokens tmap = Some (out, n')"
      and "b' \<in> set out"
  shows "(\<exists>t k. b' = image_with_key tmap t k) \<or>
         (b_type b' = ''block'' \<and>
          b_style b' = Some (style_or_normal blk) \<and>
          (truthy_str (b_style blk) \<longrightarrow> b_style b' = b_style blk) \<and>
          b_markDefs b' = Some (markDefs_or_empty blk) \<and>
          (b_markDefs blk \<noteq> None \<longrightarrow> b_markDefs b' = b_markDefs blk) \<and>
          (\<exists>cs cs'. b_children blk = Some cs \<and> b_children b' = Some cs' \<and>
             (\<forall>c' \<in> set cs'. \<exists>c \<in> set cs.
                c_type c' = c_type c \<and> c_marks c' = c_marks c \<and> c_other c' = c_other c \<and>
                (\<forall>t. c_text c = Some t \<longrightarrow> (\<exists>t'. c_text c' = Some t' \<and> sublist t' t)))))"
proof -
  from splitBlock_inv[OF assms(1)] obtain cs where cs: "b_children blk = Some cs"
    and all: "list_all (\<lambda>b. (\<exists>t k. b = image_with_key tmap t k) \<or> paragraph_of blk cs b) out"
    by blast
  from all assms(2) have "(\<exists>t k. b' = image_with_key tmap t k) \<or> paragraph_of blk cs b'"
    by (simp add: list_all_iff)
  then show ?thesis
  proof
    assume "\<exists>t k. b' = image_with_key tmap t k"
    then show ?thesis by (rule disjI1)
  next
    assume p: "paragraph_of blk cs b'"
    then obtain cs' where cs': "b_children b' = Some cs'"
      and copies: "list_all (\<lambda>c'. list_ex (\<lambda>c. copy_of c c') cs) cs'"
      by (auto simp: paragraph_of_def)
    have kids: "\<forall>c' \<in> set cs'. \<exists>c \<in> set cs.
                c_type c' = c_type c \<and> c_marks c' = c_marks c \<and> c_other c' = c_other c \<and>
                (\<forall>t. c_text c = Some t \<longrightarrow> (\<exists>t'. c_text c' = Some t' \<and> sublist t' t))"
    proof
      fix c' assume "c' \<in> set cs'"
      with copies obtain c where c: "c \<in> set cs" "copy_of c c'"
        by (auto simp: list_all_iff list_ex_iff)
      from c(2) have "c_type c' = c_type c \<and> c_marks c' = c_marks c \<and> c_other c' = c_other c \<and>
                (\<forall>t. c_text c = Some t \<longrightarrow> (\<exists>t'. c_text c' = Some t' \<and> sublist t' t))"
        by (auto simp: copy_of_def)
      with c(1) show "\<exists>c \<in> set cs.
                c_type c' = c_type c \<and> c_marks c' = c_marks c \<and> c_other c' = c_other c \<and>
                (\<forall>t. c_text c = Some t \<longrightarrow> (\<exists>t'. c_text c' = Some t' \<and> sublist t' t))"
        by blast
    qed
    have sty: "truthy_str (b_style blk) \<longrightarrow> Some (style_or_normal blk) = b_style blk"
      by (auto simp: style_or_normal_def truthy_str_def split: option.splits)
    have mds: "b_markDefs blk \<noteq> None \<longrightarrow> Some (markDefs_or_empty blk) = b_markDefs blk"
      by (auto simp: markDefs_or_empty_def)
    from p have "b_type b' = ''block''" "b_style b' = Some (style_or_normal blk)"
      "b_markDefs b' = Some (markDefs_or_empty blk)"
      by (simp_all add: paragraph_of_def)
    with sty mds cs cs' kids show ?thesis by (intro disjI2) simp
  qed
qed
theorem split_preserves_marks_witness:
  "splitBlockByTokensPreserveMarks scenario_keys 0 scenario_block [token 0]
     [(token 0, scenario_image)] = Some (scenario_out, 7) \<and>
   scenario_after \<in> set scenario_out \<and>
   ((\<exists>t k. scenario_after = image_with_key [(token 0, scenario_image)] t k) \<or>
    (b_type scenario_after = ''block'' \<and>
     b_style scenario_after = Some (style_or_normal scenario_block) \<and>
     (truthy_str (b_style scenario_block) \<longrightarrow> b_style scenario_after = b_style scenario_block) \<and>
     b_markDefs scenario_after = Some (markDefs_or_empty scenario_block) \<and>
     (b_markDefs scenario_block \<noteq> None \<longrightarrow> b_markDefs scenario_after = b_markDefs scenario_block) \<and>
     (\<exists>cs cs'. b_children scenario_block = Some cs \<and> b_children scenario_after = Some cs' \<and>
        (\<forall>c' \<in> set cs'. \<exists>c \<in> set cs.
           c_type c' = c_type c \<and> c_marks c' = c_marks c \<and> c_other c' = c_other c \<and>
           (\<forall>t. c_text c = Some t \<longrightarrow> (\<exists>t'. c_text c' = Some t' \<and> sublist t' t))))))"
proof -
  have run: "splitBlockByTokensPreserveMarks scenario_keys 0 scenario_block [token 0]
     [(token 0, scenario_image)] = Some (scenario_out, 7)"
    by code_simp
  have mem: "scenario_after \<in> set scenario_out"
    by (simp add: scenario_out_def)
  from run mem split_preserves_marks[OF run mem] show ?thesis by (intro conjI)
qed

section \<open>Slugs, files and image types\<close>

text \<open>
  \<^verbatim>\<open>slugify\<close>: trim, lower case, every run of characters other than \<^verbatim>\<open>a-z0-9\<close>
  turned into one dash, a dash at the start and one at the end removed; an empty
  result throws. An error thrown with \<^verbatim>\<open>new Error(message)\<close> is \<open>Err message\<close>, an
  error of the network client \<open>NetErr\<close> with the properties the retry wrapper reads.
\<close>

datatype failure = Err string | NetErr js_error

definition lower_char :: "char \<Rightarrow> char" where
  "lower_char c =
     (let n = (of_char c :: nat) in if 65 \<le> n \<and> n \<le> 90 then char_of (n + 32) else c)"

definition is_slug_char :: "char \<Rightarrow> bool" where
  "is_slug_char c =
     (let n = (of_char c :: nat) in (97 \<le> n \<and> n \<le> 122) \<or> (48 \<le> n \<and> n \<le> 57))"

function dash_runs :: "string \<Rightarrow> string" where
  "dash_runs [] = []"
| "dash_runs (c # cs) =
     (if is_slug_char c then c # dash_runs cs
      else CHR ''-'' # dash_runs (dropWhile (\<lambda>x. \<not> is_slug_char x) cs))"
  by pat_completeness auto
termination
  by (relation "measure length") (auto simp: less_Suc_eq_le length_dropWhile_le)

definition strip_dashes :: "string \<Rightarrow> string" where
  "strip_dashes s =
     (let r = (case s of [] \<Rightarrow> [] | c # cs \<Rightarrow> if c = CHR ''-'' then cs else s)
      in if r \<noteq> [] \<and> last r = CHR ''-'' then butlast r else r)"

definition slugify :: "string \<Rightarrow> failure + string" where
  "slugify input =
     (let slug = strip_dashes (dash_runs (map lower_char (trim input)))
      in if slug = []
         then Inl (Err (''Cannot generate valid slug from input: '' @ [CHR 0x22] @ input @ [CHR 0x22]))
         else Inr slug)"

text \<open>
  \<^verbatim>\<open>validateImageType\<close>. \<^verbatim>\<open>mime.getType\<close> is a parameter; it looks at the file name
  only.
\<close>

definition VALID_IMAGE_TYPES :: "string list" where
  "VALID_IMAGE_TYPES =
     [''image/jpeg'', ''image/png'', ''image/gif'', ''image/webp'', ''image/svg+xml'', ''image/avif'']"

definition validateImageType :: "(string \<Rightarrow> string option) \<Rightarrow> string \<Rightarrow> failure + string" where
  "validateImageType getType absPath =
     (let contentType = (case getType absPath of
                           None \<Rightarrow> ''application/octet-stream''
                         | Some t \<Rightarrow> if t = [] then ''application/octet-stream'' else t)
      in if contentType \<notin> set VALID_IMAGE_TYPES
         then Inl (Err (''Invalid image type '' @ [CHR 0x22] @ contentType @ [CHR 0x22] @
                        '' for file: '' @ absPath @ ''. Allowed types: '' @
                        join '', '' VALID_IMAGE_TYPES))
         else Inr contentType)"

text \<open>
  \<^verbatim>\<open>readFileWithContext\<close>. \<^verbatim>\<open>fs.readFileSync\<close> is a parameter that gives the file's
  content or throws an error with an optional code and a message.
\<close>

record fs_error =
  fs_code :: "string option"
  fs_message :: string

definition readFileWithContext ::
  "(string \<Rightarrow> fs_error + string) \<Rightarrow> string \<Rightarrow> string \<Rightarrow> failure + string" where
  "readFileWithContext readFileSync filePath ctxt =
     (case readFileSync filePath of
        Inr content \<Rightarrow> Inr content
      | Inl err \<Rightarrow>
          (let code = (if truthy_str (fs_code err) then the (fs_code err) else ''UNKNOWN'');
               details = (if code = ''ENOENT'' then ''file not found''
                          else if code = ''EACCES'' then ''permission denied''
                          else if code = ''EMFILE'' then ''too many open files''
                          else if code = ''EISDIR'' then ''path is a directory''
                          else fs_message err)
           in Inl (Err (''Failed to read '' @ ctxt @ '': '' @ filePath @ '' ('' @ code @ '': '' @
                        details @ '')''))))"

section \<open>The asset uploader\<close>

text \<open>
  \<^verbatim>\<open>uploadImageAsset\<close> is an \<^verbatim>\<open>async\<close> function over two maps shared by all its
  calls. JavaScript runs it on one thread: a call runs without interruption up to its
  first \<^verbatim>\<open>await\<close>, and other code runs only while it waits. The model is a state
  machine whose steps are these uninterrupted pieces:

  \<^item> \<open>Call p\<close>: a call for the path \<open>p\<close>, up to the point where it returns or waits;
  \<^item> \<open>Settle p fn\<close>: the upload in flight for \<open>p\<close> runs to its end under the retry
    wrapper, \<open>fn k\<close> being the answer of the backend to the \<open>k\<close>-th request, and the rest
    of the upload body runs;
  \<^item> \<open>Cleanup p\<close>: the \<^verbatim>\<open>finally\<close> block of the call that started the upload for \<open>p\<close>,
    which runs once the promise is settled.

  The promise stored in \<^verbatim>\<open>uploadPromises\<close> is kept by its state. The state also counts,
  per path, how often the upload body has run (\<open>bodies\<close>) and how often it has failed
  (\<open>failures\<close>); it records how the \<open>g\<close>-th run for a path ended (\<open>outcomes\<close>), what each
  call returned (\<open>results\<close>) and the file reads, upload requests and log lines in order
  (\<open>effects\<close>). Every request sent to the backend is an \<open>UploadStart\<close>: the first one of an
  upload body, sent by the call that starts it, and each one the retry wrapper sends again.
  \<open>Retry p k d\<close> is the line \<^verbatim>\<open>[retry] upload <name>: attempt k/3 in d ms...\<close> the
  wrapper prints before it sends the request for \<open>p\<close> again; the requests sent again
  and their lines are recorded, in their order, when the upload settles.
\<close>

datatype promise = Pending | Fulfilled string | Rejected failure

datatype call_result = Immediate string | Shares nat

datatype effect = ReadFile string | UploadStart string | Retry string nat nat | LogLine string

datatype event = Call string | Settle string "nat \<Rightarrow> js_error + string" | Cleanup string

record upload_env =
  env_WRITE :: bool
  env_getType :: "string \<Rightarrow> string option"
  env_readFileSync :: "string \<Rightarrow> fs_error + string"
  env_basename :: "string \<Rightarrow> string"

record upload_state =
  assetCache :: "string \<rightharpoonup> string"
  uploadPromises :: "string \<rightharpoonup> promise"
  bodies :: "string \<Rightarrow> nat"
  failures :: "string \<Rightarrow> nat"
  outcomes :: "string \<Rightarrow> nat \<rightharpoonup> failure + string"
  results :: "(string \<times> call_result) list"
  effects :: "effect list"

definition init_state :: upload_state where
  "init_state =
     \<lparr>assetCache = Map.empty, uploadPromises = Map.empty, bodies = (\<lambda>p. 0),
      failures = (\<lambda>p. 0), outcomes = (\<lambda>p. Map.empty), results = [], effects = []\<rparr>"

text \<open>
  The upload body fails before any request is sent: the promise is created rejected and
  stored, and the caller waits for it.
\<close>

definition reject_now :: "string \<Rightarrow> failure \<Rightarrow> effect list \<Rightarrow> upload_state \<Rightarrow> upload_state" where
  "reject_now p e io s =
     s\<lparr>uploadPromises := (uploadPromises s)(p \<mapsto> Rejected e),
       bodies := (bodies s)(p := Suc (bodies s p)),
       failures := (failures s)(p := Suc (failures s p)),
       outcomes := (outcomes s)(p := (outcomes s p)(Suc (bodies s p) \<mapsto> Inl e)),
       results := results s @ [(p, Shares (Suc (bodies s p)))],
       effects := effects s @ io\<rparr>"

text \<open>
  The immediately invoked body of \<^verbatim>\<open>uploadImageAsset\<close>, up to its first
  \<^verbatim>\<open>await\<close>, followed by \<^verbatim>\<open>uploadPromises.set(absPath, uploadPromise)\<close>.
\<close>

definition start_upload :: "upload_env \<Rightarrow> string \<Rightarrow> upload_state \<Rightarrow> upload_state" where
  "start_upload env p s =
     (case validateImageType (env_getType env) p of
        Inl e \<Rightarrow> reject_now p e [] s
      | Inr contentType \<Rightarrow>
          (case readFileWithContext (env_readFileSync env) p ''image asset'' of
             Inl e \<Rightarrow> reject_now p e [ReadFile p] s
           | Inr buf \<Rightarrow>
               if \<not> env_WRITE env then
                 (case slugify (env_basename env p) of
                    Inl e \<Rightarrow> reject_now p e [ReadFile p] s
                  | Inr slug \<Rightarrow>
                      s\<lparr>assetCache := (assetCache s)(p \<mapsto> ''dry.asset.'' @ slug),
                        uploadPromises := (uploadPromises s)(p \<mapsto> Fulfilled (''dry.asset.'' @ slug)),
                        bodies := (bodies s)(p := Suc (bodies s p)),
                        outcomes := (outcomes s)(p := (outcomes s p)(Suc (bodies s p) \<mapsto>
                                       Inr (''dry.asset.'' @ slug))),
                        results := results s @ [(p, Shares (Suc (bodies s p)))],
                        effects := effects s @
                          [ReadFile p,
                           LogLine (''  [dry] would upload image asset: '' @ env_basename env p)]\<rparr>)
               else
                 s\<lparr>uploadPromises := (uploadPromises s)(p \<mapsto> Pending),
                   bodies := (bodies s)(p := Suc (bodies s p)),
                   results := results s @ [(p, Shares (Suc (bodies s p)))],
                   effects := effects s @ [ReadFile p, UploadStart p]\<rparr>))"

text \<open>
  The requests the retry wrapper sends again for the path \<open>p\<close>, one for every delay it
  has slept, each after its \<^verbatim>\<open>[retry]\<close> line; \<open>k\<close> is the attempt the first of the lines
  announces.
\<close>

fun resent :: "string \<Rightarrow> nat \<Rightarrow> nat list \<Rightarrow> effect list" where
  "resent p k [] = []"
| "resent p k (d # ds) = Retry p k d # UploadStart p # resent p (Suc k) ds"

text \<open>
  The upload body from \<^verbatim>\<open>await withRetry(...)\<close> on, for a run of the wrapper that sent
  the first request when the body started: the requests sent again, then the cache
  entry and the \<^verbatim>\<open>[upload]\<close> line, or the rejection of the promise with the error
  thrown. A run without a result would make \<^verbatim>\<open>asset._id\<close> throw.
\<close>

definition settle_upload :: "upload_env \<Rightarrow> string \<Rightarrow> string retry_run \<Rightarrow> upload_state \<Rightarrow> upload_state" where
  "settle_upload env p run s =
     (case rr_result run of
        Returns assetId \<Rightarrow>
          s\<lparr>assetCache := (assetCache s)(p \<mapsto> assetId),
            uploadPromises := (uploadPromises s)(p \<mapsto> Fulfilled assetId),
            outcomes := (outcomes s)(p := (outcomes s p)(bodies s p \<mapsto> Inr assetId)),
            effects := effects s @ resent p 2 (rr_delays run) @
              [LogLine (''  [upload] '' @ env_basename env p @ '' -> '' @ assetId)]\<rparr>
      | Throws err \<Rightarrow>
          s\<lparr>uploadPromises := (uploadPromises s)(p \<mapsto> Rejected (NetErr err)),
            failures := (failures s)(p := Suc (failures s p)),
            outcomes := (outcomes s)(p := (outcomes s p)(bodies s p \<mapsto> Inl (NetErr err))),
            effects := effects s @ resent p 2 (rr_delays run)\<rparr>
      | ReturnsUndefined \<Rightarrow>
          s\<lparr>uploadPromises := (uploadPromises s)(p \<mapsto>
                                Rejected (Err ''TypeError: Cannot read properties of undefined'')),
            failures := (failures s)(p := Suc (failures s p)),
            outcomes := (outcomes s)(p := (outcomes s p)(bodies s p \<mapsto>
                          Inl (Err ''TypeError: Cannot read properties of undefined''))),
            effects := effects s @ resent p 2 (rr_delays run)\<rparr>)"

text \<open>
  One step of the machine. An event that cannot happen in a state leaves it as it is;
  an upload is in flight only in a run that writes. The importer calls the wrapper with
  its defaults: three attempts and a base delay of one second.
\<close>

fun step :: "upload_env \<Rightarrow> upload_state \<Rightarrow> event \<Rightarrow> upload_state" where
  "step env s (Call p) =
     (case assetCache s p of
        Some cached \<Rightarrow> s\<lparr>results := results s @ [(p, Immediate cached)]\<rparr>
      | None \<Rightarrow>
          (case uploadPromises s p of
             Some inflight \<Rightarrow> s\<lparr>results := results s @ [(p, Shares (bodies s p))]\<rparr>
           | None \<Rightarrow> start_upload env p s))"
| "step env s (Settle p fn) =
     (case uploadPromises s p of
        Some Pending \<Rightarrow>
          if env_WRITE env then settle_upload env p (withRetry fn 3 1000) s else s
      | _ \<Rightarrow> s)"
| "step env s (Cleanup p) =
     (case uploadPromises s p of
        Some (Fulfilled a) \<Rightarrow> s\<lparr>uploadPromises := (uploadPromises s)(p := None)\<rparr>
      | Some (Rejected e) \<Rightarrow> s\<lparr>uploadPromises := (uploadPromises s)(p := None)\<rparr>
      | _ \<Rightarrow> s)"

definition exec :: "upload_env \<Rightarrow> upload_state \<Rightarrow> event list \<Rightarrow> upload_state" where
  "exec env s evs = foldl (step env) s evs"

text \<open>What an effect prints on the console, if anything.\<close>

definition console_line :: "upload_env \<Rightarrow> effect \<Rightarrow> string option" where
  "console_line env e =
     (case e of
        LogLine l \<Rightarrow> Some l
      | Retry p k d \<Rightarrow>
          Some (''  [retry] upload '' @ env_basename env p @ '': attempt '' @ show_nat k @
                ''/3 in '' @ show_nat d @ ''ms...'')
      | _ \<Rightarrow> None)"

text \<open>The number of \<^verbatim>\<open>[retry]\<close> lines printed for the uploads of a path.\<close>

definition retry_count :: "effect list \<Rightarrow> string \<Rightarrow> nat" where
  "retry_count es p = length (filter (\<lambda>e. case e of Retry q k d \<Rightarrow> q = p | _ \<Rightarrow> False) es)"

text \<open>
  What holds in every state the machine reaches, for every path \<open>p\<close>: the upload body
  has run once more than it has failed exactly when the path is cached or its upload is
  pending; a cached path has no pending upload; a fulfilled promise in flight has its
  result in the cache and a rejected one has none; a promise in flight stems from a
  run; the cache holds the result of the
  last run; every call got the promise of a run or the cached id; the file is read once
  by every run that gets as far; and the requests sent are the first one of every run
  that gets as far and one for every \<^verbatim>\<open>[retry]\<close> line, of which a run has at most two.
\<close>

definition inv_at :: "upload_env \<Rightarrow> upload_state \<Rightarrow> string \<Rightarrow> bool" where
  "inv_at env s p \<longleftrightarrow>
     bodies s p = failures s p +
        (if assetCache s p \<noteq> None \<or> uploadPromises s p = Some Pending then 1 else 0) \<and>
     \<not> (assetCache s p \<noteq> None \<and> uploadPromises s p = Some Pending) \<and>
     (\<forall>a. uploadPromises s p = Some (Fulfilled a) \<longrightarrow> assetCache s p = Some a) \<and>
     (\<forall>e. uploadPromises s p = Some (Rejected e) \<longrightarrow> assetCache s p = None) \<and>
     (uploadPromises s p \<noteq> None \<longrightarrow> 1 \<le> bodies s p) \<and>
     (\<forall>a. assetCache s p = Some a \<longrightarrow> outcomes s p (bodies s p) = Some (Inr a)) \<and>
     (\<forall>r. (p, r) \<in> set (results s) \<longrightarrow>
          (\<exists>g. r = Shares g \<and> 1 \<le> g \<and> g \<le> bodies s p) \<or>
          (\<exists>a. r = Immediate a \<and> assetCache s p = Some a)) \<and>
     count_list (effects s) (UploadStart p) \<le> bodies s p + retry_count (effects s) p \<and>
     count_list (effects s) (ReadFile p) \<le> bodies s p \<and>
     bodies s p \<le> count_list (effects s) (ReadFile p) + failures s p \<and>
     (env_WRITE env \<longrightarrow>
        bodies s p + retry_count (effects s) p \<le>
          count_list (effects s) (UploadStart p) + failures s p) \<and>
     (\<not> env_WRITE env \<longrightarrow> count_list (effects s) (UploadStart p) = 0) \<and>
     retry_count (effects s) p + (if uploadPromises s p = Some Pending then 2 else 0) \<le>
       2 * bodies s p"

definition upload_inv :: "upload_env \<Rightarrow> upload_state \<Rightarrow> bool" where
  "upload_inv env s \<longleftrightarrow> (\<forall>p. inv_at env s p)"

text \<open>An upload environment that writes, and a client error that is not retried.\<close>

definition write_env :: upload_env where
  "write_env =
     \<lparr>env_WRITE = True, env_getType = (\<lambda>p. Some ''image/png''),
      env_readFileSync = (\<lambda>p. Inr ''bytes''), env_basename = (\<lambda>p. p)\<rparr>"

definition bad_request :: js_error where
  "bad_request = \<lparr>err_statusCode = Some 400, err_code = None, err_message = None\<rparr>"

text \<open>A backend that is unavailable at the first request and accepts the second.\<close>

definition unavailable_once :: "nat \<Rightarrow> js_error + string" where
  "unavailable_once k =
     (if k = 1 then Inl \<lparr>err_statusCode = Some 503, err_code = None, err_message = None\<rparr>
      else Inr ''asset-9'')"

text \<open>A backend that is unavailable at every request.\<close>

definition unavailable :: "nat \<Rightarrow> js_error + string" where
  "unavailable k = Inl \<lparr>err_statusCode = Some 503, err_code = None, err_message = None\<rparr>"

subsection \<open>The invariant\<close>

lemma withRetry_loop_delays_length:
  "length (rr_delays (withRetry_loop fn maxRetries baseDelay attempt delays)) \<le>
     length delays + (maxRetries - attempt)"
proof (induction fn maxRetries baseDelay attempt delays rule: withRetry_loop.induct)
  case (1 fn maxRetries baseDelay attempt delays)
  show ?case
  proof (cases "attempt \<le> maxRetries")
    case False
    then show ?thesis by (simp add: withRetry_loop.simps)
  next
    case le: True
    show ?thesis
    proof (cases "fn attempt")
      case (Inr v)
      with le show ?thesis by (simp add: withRetry_loop.simps)
    next
      case (Inl err)
      show ?thesis
      proof (cases "attempt = maxRetries \<or> \<not> isRetryable err")
        case True
        with Inl le show ?thesis
          by (simp add: withRetry_loop.simps[of fn maxRetries baseDelay attempt])
      next
        case False
        let ?next = "withRetry_loop fn maxRetries baseDelay (attempt + 1)
                       (delays @ [baseDelay * 2 ^ (attempt - 1)])"
        from "1.IH"[OF le Inl False]
        have "length (rr_delays ?next) \<le>
                length (delays @ [baseDelay * 2 ^ (attempt - 1)]) + (maxRetries - (attempt + 1))" .
        also from False le have "\<dots> = length delays + (maxRetries - attempt)" by auto
        finally have "length (rr_delays ?next) \<le> length delays + (maxRetries - attempt)" .
        moreover from Inl False le
        have "withRetry_loop fn maxRetries baseDelay attempt delays = ?next"
          by (simp add: withRetry_loop.simps[of fn maxRetries baseDelay attempt])
        ultimately show ?thesis by simp
      qed
    qed
  qed
qed

lemma withRetry_loop_delays_calls:
  "1 \<le> attempt \<Longrightarrow> attempt \<le> maxRetries \<Longrightarrow> length delays = attempt - 1 \<Longrightarrow>
   length (rr_delays (withRetry_loop fn maxRetries baseDelay attempt delays)) =
     rr_calls (withRetry_loop fn maxRetries baseDelay attempt delays) - 1"
proof (induction fn maxRetries baseDelay attempt delays rule: withRetry_loop.induct)
  case (1 fn maxRetries baseDelay attempt delays)
  note le = "1.prems"(2)
  show ?case
  proof (cases "fn attempt")
    case (Inr v)
    with le "1.prems"(3) show ?thesis by (simp add: withRetry_loop.simps)
  next
    case (Inl err)
    show ?thesis
    proof (cases "attempt = maxRetries \<or> \<not> isRetryable err")
      case True
      with Inl le "1.prems"(3) show ?thesis
        by (simp add: withRetry_loop.simps[of fn maxRetries baseDelay attempt])
    next
      case False
      let ?next = "withRetry_loop fn maxRetries baseDelay (attempt + 1)
                     (delays @ [baseDelay * 2 ^ (attempt - 1)])"
      from False le have "1 \<le> attempt + 1" "attempt + 1 \<le> maxRetries" by simp_all
      moreover from "1.prems"(1,3)
      have "length (delays @ [baseDelay * 2 ^ (attempt - 1)]) = attempt + 1 - 1" by simp
      ultimately have "length (rr_delays ?next) = rr_calls ?next - 1"
        by (rule "1.IH"[OF le Inl False])
      moreover from Inl False le
      have "withRetry_loop fn maxRetries baseDelay attempt delays = ?next"
        by (simp add: withRetry_loop.simps[of fn maxRetries baseDelay attempt])
      ultimately show ?thesis by simp
    qed
  qed
qed

lemma upload_retries_are_calls:
  "length (rr_delays (withRetry fn 3 baseDelay)) = rr_calls (withRetry fn 3 baseDelay) - 1"
  unfolding withRetry_def by (rule withRetry_loop_delays_calls) simp_all

lemma upload_retries_at_most_two: "length (rr_delays (withRetry fn 3 baseDelay)) \<le> 2"
  using withRetry_loop_delays_length[of fn 3 baseDelay 1 "[]"] by (simp add: withRetry_def)

lemma retry_count_append [simp]: "retry_count (xs @ ys) p = retry_count xs p + retry_count ys p"
  by (simp add: retry_count_def)

lemma retry_count_simps [simp]:
  "retry_count [] p = 0"
  "retry_count (ReadFile q # es) p = retry_count es p"
  "retry_count (UploadStart q # es) p = retry_count es p"
  "retry_count (LogLine l # es) p = retry_count es p"
  "retry_count (Retry q k d # es) p = (if q = p then Suc (retry_count es p) else retry_count es p)"
  by (simp_all add: retry_count_def)

lemma resent_counts [simp]:
  "count_list (resent q k ds) (UploadStart p) = (if p = q then length ds else 0)"
  "retry_count (resent q k ds) p = (if p = q then length ds else 0)"
  "count_list (resent q k ds) (ReadFile p) = 0"
  by (induction ds arbitrary: k) auto

lemma upload_inv_init: "upload_inv env init_state"
  by (simp add: upload_inv_def inv_at_def init_state_def)

lemma inv_at_reject_now:
  assumes "inv_at env s p" "assetCache s q = None" "uploadPromises s q = None"
      and "io = [] \<or> io = [ReadFile q]"
  shows "inv_at env (reject_now q e io s) p"
proof (cases "p = q")
  case True
  with assms show ?thesis
    by (auto simp: inv_at_def reject_now_def)
next
  case False
  with assms show ?thesis
    by (auto simp: inv_at_def reject_now_def)
qed

lemma inv_at_start_upload:
  assumes "inv_at env s p" "assetCache s q = None" "uploadPromises s q = None"
  shows "inv_at env (start_upload env q s) p"
proof (cases "validateImageType (env_getType env) q")
  case (Inl e)
  then have "start_upload env q s = reject_now q e [] s"
    by (simp add: start_upload_def)
  with assms show ?thesis by (simp add: inv_at_reject_now)
next
  case ok: (Inr contentType)
  show ?thesis
  proof (cases "readFileWithContext (env_readFileSync env) q ''image asset''")
    case (Inl e)
    with ok have "start_upload env q s = reject_now q e [ReadFile q] s"
      by (simp add: start_upload_def)
    with assms show ?thesis by (simp add: inv_at_reject_now)
  next
    case rd: (Inr buf)
    show ?thesis
    proof (cases "env_WRITE env")
      case True
      with ok rd have eq: "start_upload env q s =
          s\<lparr>uploadPromises := (uploadPromises s)(q \<mapsto> Pending),
            bodies := (bodies s)(q := Suc (bodies s q)),
            results := results s @ [(q, Shares (Suc (bodies s q)))],
            effects := effects s @ [ReadFile q, UploadStart q]\<rparr>"
        by (simp add: start_upload_def)
      show ?thesis
      proof (cases "p = q")
        case same: True
        with assms True show ?thesis unfolding eq by (auto simp: inv_at_def)
      next
        case False
        with assms True show ?thesis unfolding eq by (auto simp: inv_at_def)
      qed
    next
      case dry: False
      show ?thesis
      proof (cases "slugify (env_basename env q)")
        case (Inl e)
        with ok rd dry have "start_upload env q s = reject_now q e [ReadFile q] s"
          by (simp add: start_upload_def)
        with assms show ?thesis by (simp add: inv_at_reject_now)
      next
        case (Inr slug)
        with ok rd dry have eq: "start_upload env q s =
            s\<lparr>assetCache := (assetCache s)(q \<mapsto> ''dry.asset.'' @ slug),
              uploadPromises := (uploadPromises s)(q \<mapsto> Fulfilled (''dry.asset.'' @ slug)),
              bodies := (bodies s)(q := Suc (bodies s q)),
              outcomes := (outcomes s)(q := (outcomes s q)(Suc (bodies s q) \<mapsto>
                             Inr (''dry.asset.'' @ slug))),
              results := results s @ [(q, Shares (Suc (bodies s q)))],
              effects := effects s @
                [ReadFile q,
                 LogLine (''  [dry] would upload image asset: '' @ env_basename env q)]\<rparr>"
          by (simp add: start_upload_def)
        show ?thesis
        proof (cases "p = q")
          case same: True
          with assms dry show ?thesis unfolding eq by (auto simp: inv_at_def)
        next
          case False
          with assms dry show ?thesis unfolding eq by (auto simp: inv_at_def)
        qed
      qed
    qed
  qed
qed

lemma inv_at_settle_upload:
  assumes inv: "inv_at env s p" and pend: "uploadPromises s q = Some Pending"
      and wr: "env_WRITE env" and few: "length (rr_delays run) \<le> 2"
  shows "inv_at env (settle_upload env q run s) p"
proof (cases "rr_result run")
  case (Returns assetId)
  then have eq: "settle_upload env q run s =
          s\<lparr>assetCache := (assetCache s)(q \<mapsto> assetId),
            uploadPromises := (uploadPromises s)(q \<mapsto> Fulfilled assetId),
            outcomes := (outcomes s)(q := (outcomes s q)(bodies s q \<mapsto> Inr assetId)),
            effects := effects s @ resent q 2 (rr_delays run) @
              [LogLine (''  [upload] '' @ env_basename env q @ '' -> '' @ assetId)]\<rparr>"
    by (simp add: settle_upload_def)
  from inv pend wr few show ?thesis unfolding eq
    by (cases "p = q") (auto simp: inv_at_def)
next
  case (Throws err)
  then have eq: "settle_upload env q run s =
          s\<lparr>uploadPromises := (uploadPromises s)(q \<mapsto> Rejected (NetErr err)),
            failures := (failures s)(q := Suc (failures s q)),
            outcomes := (outcomes s)(q := (outcomes s q)(bodies s q \<mapsto> Inl (NetErr err))),
            effects := effects s @ resent q 2 (rr_delays run)\<rparr>"
    by (simp add: settle_upload_def)
  from inv pend wr few show ?thesis unfolding eq
    by (cases "p = q") (auto simp: inv_at_def)
next
  case ReturnsUndefined
  then have eq: "settle_upload env q run s =
          s\<lparr>uploadPromises := (uploadPromises s)(q \<mapsto>
                                Rejected (Err ''TypeError: Cannot read properties of undefined'')),
            failures := (failures s)(q := Suc (failures s q)),
            outcomes := (outcomes s)(q := (outcomes s q)(bodies s q \<mapsto>
                          Inl (Err ''TypeError: Cannot read properties of undefined''))),
            effects := effects s @ resent q 2 (rr_delays run)\<rparr>"
    by (simp add: settle_upload_def)
  from inv pend wr few show ?thesis unfolding eq
    by (cases "p = q") (auto simp: inv_at_def)
qed

lemma inv_at_step:
  assumes "inv_at env s p"
  shows "inv_at env (step env s ev) p"
proof (cases ev)
  case (Call q)
  show ?thesis
  proof (cases "assetCache s q")
    case (Some cached)
    with Call assms show ?thesis by (cases "p = q") (auto simp: inv_at_def)
  next
    case None
    show ?thesis
    proof (cases "uploadPromises s q")
      case nf: None
      with None Call have "step env s ev = start_upload env q s" by simp
      with assms None nf show ?thesis by (simp add: inv_at_start_upload)
    next
      case (Some inflight)
      with None Call have eq: "step env s ev = s\<lparr>results := results s @ [(q, Shares (bodies s q))]\<rparr>"
        by simp
      show ?thesis
      proof (cases "p = q")
        case True
        from assms True None Some have "1 \<le> bodies s q"
          by (cases inflight) (auto simp: inv_at_def)
        with assms True show ?thesis unfolding eq by (auto simp: inv_at_def)
      next
        case False
        with assms show ?thesis unfolding eq by (auto simp: inv_at_def)
      qed
    qed
  qed
next
  case (Settle q fn)
  show ?thesis
  proof (cases "uploadPromises s q = Some Pending \<and> env_WRITE env")
    case False
    with Settle have "step env s ev = s"
      by (cases "uploadPromises s q"; cases "the (uploadPromises s q)") auto
    with assms show ?thesis by simp
  next
    case True
    with Settle have "step env s ev = settle_upload env q (withRetry fn 3 1000) s" by simp
    with assms True upload_retries_at_most_two[of fn 1000] show ?thesis
      by (simp add: inv_at_settle_upload)
  qed
next
  case (Cleanup q)
  show ?thesis
  proof (cases "uploadPromises s q")
    case None
    with Cleanup assms show ?thesis by simp
  next
    case (Some pr)
    with Cleanup assms show ?thesis
      by (cases pr; cases "p = q") (auto simp: inv_at_def)
  qed
qed

lemma upload_inv_step: "upload_inv env s \<Longrightarrow> upload_inv env (step env s ev)"
  by (simp add: upload_inv_def inv_at_step)

lemma upload_inv_exec: "upload_inv env s \<Longrightarrow> upload_inv env (exec env s evs)"
  unfolding exec_def by (induction evs arbitrary: s) (simp_all add: upload_inv_step)

lemma reachable_inv_at: "inv_at env (exec env init_state evs) p"
  using upload_inv_exec[OF upload_inv_init, of env evs] by (simp add: upload_inv_def)

subsection \<open>How a call fails\<close>

lemma bodies_reject_now: "bodies (reject_now p e io s) p = Suc (bodies s p)"
  by (simp add: reject_now_def)

lemma bodies_start_upload: "bodies (start_upload env p s) p = Suc (bodies s p)"
  by (simp add: start_upload_def bodies_reject_now split: sum.splits)

lemma call_rejected_invalid_type:
  assumes "assetCache s p = None" "uploadPromises s p = None"
      and "validateImageType (env_getType env) p = Inl e"
  shows "uploadPromises (step env s (Call p)) p = Some (Rejected e) \<and>
         assetCache (step env s (Call p)) p = None \<and>
         effects (step env s (Call p)) = effects s"
  using assms by (simp add: start_upload_def reject_now_def)

lemma call_rejected_unreadable:
  assumes "assetCache s p = None" "uploadPromises s p = None"
      and "validateImageType (env_getType env) p = Inr contentType"
      and "readFileWithContext (env_readFileSync env) p ''image asset'' = Inl e"
  shows "uploadPromises (step env s (Call p)) p = Some (Rejected e) \<and>
         assetCache (step env s (Call p)) p = None"
  using assms by (simp add: start_upload_def reject_now_def)

lemma settle_rejected_upload_failure:
  assumes "assetCache s p = None" "uploadPromises s p = Some Pending" "env_WRITE env"
      and "rr_result (withRetry fn 3 1000) = Throws err"
  shows "uploadPromises (step env s (Settle p fn)) p = Some (Rejected (NetErr err)) \<and>
         assetCache (step env s (Settle p fn)) p = None"
  using assms by (simp add: settle_upload_def)

text \<open>
  When an upload settles, the requests sent for it are as many as the calls the retry
  wrapper has made of the upload operation: the first, sent when the body started, and
  the others, recorded now.
\<close>

lemma settle_sends_every_retry:
  assumes "uploadPromises s p = Some Pending" "env_WRITE env"
  shows "count_list (effects (step env s (Settle p fn))) (UploadStart p) =
           count_list (effects s) (UploadStart p) + (rr_calls (withRetry fn 3 1000) - 1) \<and>
         retry_count (effects (step env s (Settle p fn))) p =
           retry_count (effects s) p + (rr_calls (withRetry fn 3 1000) - 1)"
  using assms upload_retries_are_calls[of fn 1000]
  by (cases "rr_result (withRetry fn 3 1000)") (simp_all add: settle_upload_def)

lemma first_answer_ends_run:
  "fn 1 = Inr a \<Longrightarrow> withRetry fn 3 baseDelay = \<lparr>rr_result = Returns a, rr_calls = 1, rr_delays = []\<rparr>"
  by (simp add: withRetry_def withRetry_loop.simps[of fn 3 baseDelay "Suc 0"])

lemma settle_caches_first_answer:
  assumes "uploadPromises s p = Some Pending" "env_WRITE env" "fn 1 = Inr a"
  shows "assetCache (step env s (Settle p fn)) p = Some a"
  using assms by (simp add: settle_upload_def first_answer_ends_run)

subsection \<open>Reading the invariant\<close>

lemma inv_at_count:
  "inv_at env s p \<Longrightarrow> bodies s p = failures s p +
        (if assetCache s p \<noteq> None \<or> uploadPromises s p = Some Pending then 1 else 0)"
  by (simp add: inv_at_def)

lemma inv_at_results:
  "inv_at env s p \<Longrightarrow> (p, r) \<in> set (results s) \<Longrightarrow>
     (\<exists>g. r = Shares g \<and> 1 \<le> g \<and> g \<le> bodies s p) \<or>
     (\<exists>a. r = Immediate a \<and> assetCache s p = Some a)"
  unfolding inv_at_def by blast

lemma inv_at_cached_outcome:
  "inv_at env s p \<Longrightarrow> assetCache s p = Some a \<Longrightarrow> outcomes s p (bodies s p) = Some (Inr a)"
  unfolding inv_at_def by blast

lemma inv_at_rejected:
  "inv_at env s p \<Longrightarrow> uploadPromises s p = Some (Rejected e) \<Longrightarrow> assetCache s p = None"
  unfolding inv_at_def by blast

lemma inv_at_uploads:
  "inv_at env s p \<Longrightarrow>
     count_list (effects s) (UploadStart p) \<le> bodies s p + retry_count (effects s) p \<and>
     count_list (effects s) (ReadFile p) \<le> bodies s p \<and>
     bodies s p \<le> count_list (effects s) (ReadFile p) + failures s p \<and>
     (env_WRITE env \<longrightarrow>
        bodies s p + retry_count (effects s) p \<le>
          count_list (effects s) (UploadStart p) + failures s p) \<and>
     (\<not> env_WRITE env \<longrightarrow> count_list (effects s) (UploadStart p) = 0) \<and>
     retry_count (effects s) p \<le> 2 * bodies s p"
  unfolding inv_at_def by auto

text \<open>
  Claim C4, amended. In a state reached by any sequence of calls, settlements and
  clean-ups in which no upload for the path \<open>p\<close> has failed, and for any call made for
  \<open>p\<close>: the upload body has run exactly once for \<open>p\<close>; it has read the file exactly once;
  when writing it has sent its upload request once and, besides, once more for every
  \<^verbatim>\<open>[retry]\<close> line of the retry wrapper, of which there are at most two, and in a dry
  run it has sent none; the call was given either the promise of that one run or the
  cached id, which is the result of that run; and once \<open>p\<close> is cached, a further call
  returns the cached id and changes nothing else, so it does no I/O.
\<close>

theorem upload_once_unless_failed:
  assumes "failures (exec env init_state evs) p = 0"
      and "(p, r) \<in> set (results (exec env init_state evs))"
  shows "bodies (exec env init_state evs) p = 1 \<and>
         count_list (effects (exec env init_state evs)) (ReadFile p) = 1 \<and>
         count_list (effects (exec env init_state evs)) (UploadStart p) =
           (if env_WRITE env then 1 + retry_count (effects (exec env init_state evs)) p else 0) \<and>
         retry_count (effects (exec env init_state evs)) p \<le> 2 \<and>
         (r = Shares 1 \<or>
          (\<exists>a. r = Immediate a \<and> outcomes (exec env init_state evs) p 1 = Some (Inr a))) \<and>
         (\<forall>a. assetCache (exec env init_state evs) p = Some a \<longrightarrow>
              step env (exec env init_state evs) (Call p) =
                (exec env init_state evs)
                  \<lparr>results := results (exec env init_state evs) @ [(p, Immediate a)]\<rparr>)"
proof -
  define s where "s = exec env init_state evs"
  have inv: "inv_at env s p" unfolding s_def by (rule reachable_inv_at)
  have f0: "failures s p = 0" and mem: "(p, r) \<in> set (results s)"
    using assms unfolding s_def by simp_all
  note cnt = inv_at_count[OF inv]
  note res0 = inv_at_results[OF inv mem]
  have le: "bodies s p \<le> 1" using cnt f0 by (simp split: if_splits)
  have ge: "1 \<le> bodies s p"
  proof (rule disjE[OF res0])
    assume "\<exists>g. r = Shares g \<and> 1 \<le> g \<and> g \<le> bodies s p"
    then show ?thesis by auto
  next
    assume "\<exists>a. r = Immediate a \<and> assetCache s p = Some a"
    then have "assetCache s p \<noteq> None" by auto
    with cnt show ?thesis by simp
  qed
  from ge le have one: "bodies s p = 1" by simp
  note ups = inv_at_uploads[OF inv]
  have up: "count_list (effects s) (UploadStart p) =
      (if env_WRITE env then 1 + retry_count (effects s) p else 0)"
    using ups one f0 by (cases "env_WRITE env") simp_all
  have rd: "count_list (effects s) (ReadFile p) = 1"
    using ups one f0 by simp
  have few: "retry_count (effects s) p \<le> 2"
    using ups one by simp
  have res: "r = Shares 1 \<or> (\<exists>a. r = Immediate a \<and> outcomes s p 1 = Some (Inr a))"
  proof (rule disjE[OF res0])
    assume "\<exists>g. r = Shares g \<and> 1 \<le> g \<and> g \<le> bodies s p"
    with one show ?thesis by auto
  next
    assume "\<exists>a. r = Immediate a \<and> assetCache s p = Some a"
    then obtain a where a: "r = Immediate a" "assetCache s p = Some a" by blast
    from inv_at_cached_outcome[OF inv a(2)] one a(1) show ?thesis by simp
  qed
  have hit: "\<forall>a. assetCache s p = Some a \<longrightarrow>
      step env s (Call p) = s\<lparr>results := results s @ [(p, Immediate a)]\<rparr>"
    by simp
  from one rd up few res hit show ?thesis unfolding s_def by (intro conjI)
qed

theorem upload_once_unless_failed_witness:
  "failures (exec write_env init_state
      [Call ''a.png'', Call ''a.png'', Settle ''a.png'' unavailable_once, Cleanup ''a.png'',
       Call ''a.png'']) ''a.png'' = 0 \<and>
   (''a.png'', Immediate ''asset-9'') \<in> set (results (exec write_env init_state
      [Call ''a.png'', Call ''a.png'', Settle ''a.png'' unavailable_once, Cleanup ''a.png'',
       Call ''a.png''])) \<and>
   bodies (exec write_env init_state
      [Call ''a.png'', Call ''a.png'', Settle ''a.png'' unavailable_once, Cleanup ''a.png'',
       Call ''a.png'']) ''a.png'' = 1 \<and>
   count_list (effects (exec write_env init_state
      [Call ''a.png'', Call ''a.png'', Settle ''a.png'' unavailable_once, Cleanup ''a.png'',
       Call ''a.png''])) (ReadFile ''a.png'') = 1 \<and>
   retry_count (effects (exec write_env init_state
      [Call ''a.png'', Call ''a.png'', Settle ''a.png'' unavailable_once, Cleanup ''a.png'',
       Call ''a.png''])) ''a.png'' = 1 \<and>
   count_list (effects (exec write_env init_state
      [Call ''a.png'', Call ''a.png'', Settle ''a.png'' unavailable_once, Cleanup ''a.png'',
       Call ''a.png''])) (UploadStart ''a.png'') = 2"
proof -
  let ?evs = "[Call ''a.png'', Call ''a.png'', Settle ''a.png'' unavailable_once, Cleanup ''a.png'',
       Call ''a.png'']"
  have f: "failures (exec write_env init_state ?evs) ''a.png'' = 0"
    by code_simp
  have r: "(''a.png'', Immediate ''asset-9'') \<in> set (results (exec write_env init_state ?evs))"
    by code_simp
  have n: "retry_count (effects (exec write_env init_state ?evs)) ''a.png'' = 1"
    by code_simp
  have w: "env_WRITE write_env" by (simp add: write_env_def)
  from upload_once_unless_failed[OF f r] w f r n show ?thesis by simp
qed

text \<open>
  Claim C4 as stated fails in two ways. When an upload fails, two calls for one path,
  the second made after the first upload was rejected by the server, send two upload
  requests, and the second call is given the promise of a second run, not a cached
  result. And a single call whose first request meets a server that is unavailable
  sends the request twice: the retry wrapper repeats the network operation.
\<close>

theorem upload_repeated_after_failure:
  "count_list (effects (exec write_env init_state
      [Call ''a.png'', Settle ''a.png'' (\<lambda>k. Inl bad_request), Cleanup ''a.png'', Call ''a.png'']))
     (UploadStart ''a.png'') = 2 \<and>
   results (exec write_env init_state
      [Call ''a.png'', Settle ''a.png'' (\<lambda>k. Inl bad_request), Cleanup ''a.png'', Call ''a.png'']) =
     [(''a.png'', Shares 1), (''a.png'', Shares 2)] \<and>
   effects (exec write_env init_state [Call ''a.png'', Settle ''a.png'' unavailable_once]) =
     [ReadFile ''a.png'', UploadStart ''a.png'', Retry ''a.png'' 2 1000, UploadStart ''a.png'',
      LogLine ''  [upload] a.png -> asset-9''] \<and>
   List.map_filter (console_line write_env)
     (effects (exec write_env init_state [Call ''a.png'', Settle ''a.png'' unavailable_once])) =
     [''  [retry] upload a.png: attempt 2/3 in 1000ms...'', ''  [upload] a.png -> asset-9'']"
  by code_simp

text \<open>
  Claim C10. Whenever the promise in flight for a path \<open>p\<close> is rejected (the upload
  body failed on the image type, on reading the file or on the upload itself), the
  cache has no entry for \<open>p\<close>; the clean-up of the failed call removes the entry in
  flight, leaves the cache without one and does no I/O; and the next call for \<open>p\<close> is
  given a new promise and goes through the upload body again: it validates the image
  type, and is rejected without I/O if that fails; else it reads the file, and is
  rejected if that fails; else, in a run that writes, it sends the upload request and
  waits for it, and an answer to that request puts the asset into the cache; in a dry
  run it makes the id of the dry run from the file name and caches it.
\<close>

theorem failed_upload_is_retried:
  assumes "uploadPromises (exec env init_state evs) p = Some (Rejected e)"
  shows "assetCache (exec env init_state evs) p = None \<and>
         uploadPromises (step env (exec env init_state evs) (Cleanup p)) p = None \<and>
         assetCache (step env (exec env init_state evs) (Cleanup p)) p = None \<and>
         effects (step env (exec env init_state evs) (Cleanup p)) =
           effects (exec env init_state evs) \<and>
         results (step env (step env (exec env init_state evs) (Cleanup p)) (Call p)) =
           results (exec env init_state evs) @ [(p, Shares (Suc (bodies (exec env init_state evs) p)))] \<and>
         (case validateImageType (env_getType env) p of
            Inl bad \<Rightarrow>
              uploadPromises (step env (step env (exec env init_state evs) (Cleanup p)) (Call p)) p =
                Some (Rejected bad) \<and>
              effects (step env (step env (exec env init_state evs) (Cleanup p)) (Call p)) =
                effects (exec env init_state evs)
          | Inr contentType \<Rightarrow>
              (case readFileWithContext (env_readFileSync env) p ''image asset'' of
                 Inl bad \<Rightarrow>
                   uploadPromises (step env (step env (exec env init_state evs) (Cleanup p)) (Call p)) p =
                     Some (Rejected bad) \<and>
                   effects (step env (step env (exec env init_state evs) (Cleanup p)) (Call p)) =
                     effects (exec env init_state evs) @ [ReadFile p]
               | Inr buf \<Rightarrow>
                   if env_WRITE env
                   then uploadPromises
                          (step env (step env (exec env init_state evs) (Cleanup p)) (Call p)) p =
                          Some Pending \<and>
                        effects (step env (step env (exec env init_state evs) (Cleanup p)) (Call p)) =
                          effects (exec env init_state evs) @ [ReadFile p, UploadStart p] \<and>
                        (\<forall>fn a. fn 1 = Inr a \<longrightarrow>
                           assetCache
                             (step env
                                (step env (step env (exec env init_state evs) (Cleanup p)) (Call p))
                                (Settle p fn)) p = Some a)
                   else (case slugify (env_basename env p) of
                           Inl bad \<Rightarrow>
                             uploadPromises
                               (step env (step env (exec env init_state evs) (Cleanup p)) (Call p)) p =
                               Some (Rejected bad) \<and>
                             effects (step env (step env (exec env init_state evs) (Cleanup p)) (Call p)) =
                               effects (exec env init_state evs) @ [ReadFile p]
                         | Inr slug \<Rightarrow>
                             assetCache
                               (step env (step env (exec env init_state evs) (Cleanup p)) (Call p)) p =
                               Some (''dry.asset.'' @ slug) \<and>
                             effects (step env (step env (exec env init_state evs) (Cleanup p)) (Call p)) =
                               effects (exec env init_state evs) @
                                 [ReadFile p,
                                  LogLine (''  [dry] would upload image asset: '' @
                                           env_basename env p)])))"
proof -
  define s where "s = exec env init_state evs"
  define s1 where "s1 = step env s (Cleanup p)"
  define s2 where "s2 = step env s1 (Call p)"
  have rej: "uploadPromises s p = Some (Rejected e)" using assms unfolding s_def .
  have inv: "inv_at env s p" unfolding s_def by (rule reachable_inv_at)
  from inv rej have c: "assetCache s p = None" by (rule inv_at_rejected)
  have clean: "s1 = s\<lparr>uploadPromises := (uploadPromises s)(p := None)\<rparr>"
    unfolding s1_def using rej by simp
  have u1: "uploadPromises s1 p = None" and c1: "assetCache s1 p = None"
    and e1: "effects s1 = effects s" and b1: "bodies s1 p = bodies s p"
    and r1: "results s1 = results s"
    unfolding clean using c by simp_all
  have again: "s2 = start_upload env p s1"
    unfolding s2_def using u1 c1 by simp
  have res: "results s2 = results s @ [(p, Shares (Suc (bodies s p)))]"
    unfolding again by (simp add: start_upload_def reject_now_def r1 b1 split: sum.splits)
  have body: "case validateImageType (env_getType env) p of
            Inl bad \<Rightarrow> uploadPromises s2 p = Some (Rejected bad) \<and> effects s2 = effects s
          | Inr contentType \<Rightarrow>
              (case readFileWithContext (env_readFileSync env) p ''image asset'' of
                 Inl bad \<Rightarrow>
                   uploadPromises s2 p = Some (Rejected bad) \<and>
                   effects s2 = effects s @ [ReadFile p]
               | Inr buf \<Rightarrow>
                   if env_WRITE env
                   then uploadPromises s2 p = Some Pending \<and>
                        effects s2 = effects s @ [ReadFile p, UploadStart p] \<and>
                        (\<forall>fn a. fn 1 = Inr a \<longrightarrow>
                           assetCache (step env s2 (Settle p fn)) p = Some a)
                   else (case slugify (env_basename env p) of
                           Inl bad \<Rightarrow>
                             uploadPromises s2 p = Some (Rejected bad) \<and>
                             effects s2 = effects s @ [ReadFile p]
                         | Inr slug \<Rightarrow>
                             assetCache s2 p = Some (''dry.asset.'' @ slug) \<and>
                             effects s2 = effects s @
                                 [ReadFile p,
                                  LogLine (''  [dry] would upload image asset: '' @
                                           env_basename env p)]))"
  proof (cases "validateImageType (env_getType env) p")
    case (Inl bad)
    then show ?thesis unfolding again by (simp add: start_upload_def reject_now_def e1)
  next
    case ok: (Inr contentType)
    show ?thesis
    proof (cases "readFileWithContext (env_readFileSync env) p ''image asset''")
      case (Inl bad)
      with ok show ?thesis unfolding again by (simp add: start_upload_def reject_now_def e1)
    next
      case rd: (Inr buf)
      show ?thesis
      proof (cases "env_WRITE env")
        case True
        with ok rd have pend: "uploadPromises s2 p = Some Pending"
          and eff: "effects s2 = effects s @ [ReadFile p, UploadStart p]"
          unfolding again by (simp_all add: start_upload_def e1)
        have "\<forall>fn a. fn 1 = Inr a \<longrightarrow> assetCache (step env s2 (Settle p fn)) p = Some a"
          using pend True by (blast intro: settle_caches_first_answer)
        with ok rd True pend eff show ?thesis by simp
      next
        case dry: False
        show ?thesis
        proof (cases "slugify (env_basename env p)")
          case (Inl bad)
          with ok rd dry show ?thesis unfolding again
            by (simp add: start_upload_def reject_now_def e1)
        next
          case (Inr slug)
          with ok rd dry show ?thesis unfolding again
            by (simp add: start_upload_def e1)
        qed
      qed
    qed
  qed
  from c u1 c1 e1 res body show ?thesis unfolding s2_def s1_def s_def by (intro conjI)
qed

theorem failed_upload_is_retried_witness:
  "uploadPromises (exec write_env init_state [Call ''a.png'', Settle ''a.png'' unavailable]) ''a.png'' =
     Some (Rejected (NetErr \<lparr>err_statusCode = Some 503, err_code = None, err_message = None\<rparr>)) \<and>
   effects (exec write_env init_state [Call ''a.png'', Settle ''a.png'' unavailable]) =
     [ReadFile ''a.png'', UploadStart ''a.png'', Retry ''a.png'' 2 1000, UploadStart ''a.png'',
      Retry ''a.png'' 3 2000, UploadStart ''a.png''] \<and>
   assetCache (exec write_env init_state [Call ''a.png'', Settle ''a.png'' unavailable]) ''a.png'' =
     None \<and>
   uploadPromises
     (exec write_env init_state
        [Call ''a.png'', Settle ''a.png'' unavailable, Cleanup ''a.png'', Call ''a.png''])
     ''a.png'' = Some Pending \<and>
   effects
     (exec write_env init_state
        [Call ''a.png'', Settle ''a.png'' unavailable, Cleanup ''a.png'', Call ''a.png'']) =
     [ReadFile ''a.png'', UploadStart ''a.png'', Retry ''a.png'' 2 1000, UploadStart ''a.png'',
      Retry ''a.png'' 3 2000, UploadStart ''a.png'', ReadFile ''a.png'', UploadStart ''a.png''] \<and>
   results
     (exec write_env init_state
        [Call ''a.png'', Settle ''a.png'' unavailable, Cleanup ''a.png'', Call ''a.png'']) =
     [(''a.png'', Shares 1), (''a.png'', Shares 2)] \<and>
   assetCache
     (exec write_env init_state
        [Call ''a.png'', Settle ''a.png'' unavailable, Cleanup ''a.png'', Call ''a.png'',
         Settle ''a.png'' (\<lambda>k. Inr ''asset-9'')])
     ''a.png'' = Some ''asset-9''"
proof -
  let ?s = "exec write_env init_state [Call ''a.png'', Settle ''a.png'' unavailable]"
  let ?s2 = "step write_env (step write_env ?s (Cleanup ''a.png'')) (Call ''a.png'')"
  have rej: "uploadPromises ?s ''a.png'' =
      Some (Rejected (NetErr \<lparr>err_statusCode = Some 503, err_code = None, err_message = None\<rparr>))"
    by code_simp
  have ty: "validateImageType (env_getType write_env) ''a.png'' = Inr ''image/png''"
    by code_simp
  have rd: "readFileWithContext (env_readFileSync write_env) ''a.png'' ''image asset'' = Inr ''bytes''"
    by code_simp
  have w: "env_WRITE write_env" by (simp add: write_env_def)
  have eff: "effects ?s =
      [ReadFile ''a.png'', UploadStart ''a.png'', Retry ''a.png'' 2 1000, UploadStart ''a.png'',
       Retry ''a.png'' 3 2000, UploadStart ''a.png'']" by code_simp
  have res0: "results ?s = [(''a.png'', Shares 1)]" by code_simp
  have b0: "bodies ?s ''a.png'' = 1" by code_simp
  have unfold4: "exec write_env init_state
        [Call ''a.png'', Settle ''a.png'' unavailable, Cleanup ''a.png'', Call ''a.png''] = ?s2"
    and unfold5: "exec write_env init_state
        [Call ''a.png'', Settle ''a.png'' unavailable, Cleanup ''a.png'', Call ''a.png'',
         Settle ''a.png'' (\<lambda>k. Inr ''asset-9'')] =
        step write_env ?s2 (Settle ''a.png'' (\<lambda>k. Inr ''asset-9''))"
    by (simp_all add: exec_def del: step.simps)
  note t = failed_upload_is_retried[OF rej]
  from t have none: "assetCache ?s ''a.png'' = None" by (rule conjunct1)
  from t have res: "results ?s2 = results ?s @ [(''a.png'', Shares (Suc (bodies ?s ''a.png'')))]"
    by (simp del: step.simps)
  from t ty rd w have pend: "uploadPromises ?s2 ''a.png'' = Some Pending"
    and eff2: "effects ?s2 = effects ?s @ [ReadFile ''a.png'', UploadStart ''a.png'']"
    and cache: "\<forall>fn a. fn 1 = Inr a \<longrightarrow>
                  assetCache (step write_env ?s2 (Settle ''a.png'' fn)) ''a.png'' = Some a"
    by (simp_all del: step.simps)
  from cache have "assetCache (step write_env ?s2 (Settle ''a.png'' (\<lambda>k. Inr ''asset-9''))) ''a.png'' =
      Some ''asset-9''" by (simp del: step.simps)
  with rej none pend eff2 eff res res0 b0 show ?thesis
    unfolding unfold4 unfold5 by (simp del: step.simps)
qed

section \<open>Importing one file\<close>

text \<open>
  The document handed to the backend. The cover image is kept by the \<^verbatim>\<open>_ref\<close> of its
  asset and its alt text.
\<close>

record document =
  d_id :: string
  d_type :: string
  d_title :: jsval
  d_slug :: jsval
  d_author :: string
  d_mainImage_ref :: string
  d_mainImage_alt :: string
  d_publishedAt :: jsval
  d_excerpt :: jsval
  d_body :: "block list"
  d_categories :: "string list"

text \<open>
  What processing a file does to the outside, in order: what the asset uploader does
  (file reads, upload requests, its log lines), the requests to the backend about
  authors and documents, a file read and the lines printed.
\<close>

datatype action =
    AssetIO effect
  | FetchAuthorById string
  | FetchAuthorByName string
  | CreateAuthor string
  | Upsert document
  | ReadText string
  | Print string

text \<open>
  Everything the importer takes from outside: the command line flags, the file system,
  the clock, the random keys, the frontmatter parser, the Markdown converter and the
  backend. A request to the backend may be sent several times by the retry wrapper, so
  its answer depends on the attempt.
\<close>

record world =
  w_env :: upload_env
  w_DRAFT :: bool
  w_ONLY :: "string option"
  w_matter :: "string \<Rightarrow> failure + frontmatter \<times> string"
  w_dateParse :: "string \<Rightarrow> int option"
  w_now :: string
  w_isAbsolute :: "string \<Rightarrow> bool"
  w_resolve :: "string \<Rightarrow> string \<Rightarrow> string"
  w_existsSync :: "string \<Rightarrow> bool"
  w_convert :: "string \<Rightarrow> block list"
  w_keys :: keygen
  w_fetchById :: "string \<Rightarrow> nat \<Rightarrow> js_error + string option"
  w_fetchByName :: "string \<Rightarrow> nat \<Rightarrow> js_error + string option"
  w_createIfNotExists :: "string \<Rightarrow> nat \<Rightarrow> js_error + unit"
  w_assetsUpload :: "string \<Rightarrow> nat \<Rightarrow> js_error + string"
  w_createOrReplace :: "document \<Rightarrow> nat \<Rightarrow> js_error + unit"

text \<open>The state of a run: the uploader's maps, the slugs seen and the keys drawn.\<close>

record run_state =
  rs_uploads :: upload_state
  rs_slugToFile :: "jsval \<rightharpoonup> string"
  rs_nextKey :: nat

definition init_run :: run_state where
  "init_run = \<lparr>rs_uploads = init_state, rs_slugToFile = Map.empty, rs_nextKey = 0\<rparr>"

text \<open>\<^verbatim>\<open>makeDocumentId(type, slug)\<close>.\<close>

definition makeDocumentId :: "bool \<Rightarrow> string \<Rightarrow> string \<Rightarrow> string" where
  "makeDocumentId DRAFT type slug =
     (let baseId = type @ ''-'' @ slug in if DRAFT then ''drafts.'' @ baseId else baseId)"

text \<open>
  \<^verbatim>\<open>resolvePath(mdFilePath, maybeRelativePath)\<close>; \<open>None\<close> is \<^verbatim>\<open>null\<close>.
\<close>

definition resolvePath :: "world \<Rightarrow> string \<Rightarrow> string \<Rightarrow> string option" where
  "resolvePath w mdFilePath maybeRelativePath =
     (if maybeRelativePath = [] then None
      else if w_isAbsolute w maybeRelativePath then Some maybeRelativePath
      else Some (w_resolve w mdFilePath maybeRelativePath))"

text \<open>
  The requests and the \<^verbatim>\<open>[retry]\<close> lines of one run of the retry wrapper, which the
  importer always calls with three attempts and a base delay of one second.
\<close>

definition retry_actions :: "string \<Rightarrow> action \<Rightarrow> 'a retry_run \<Rightarrow> action list" where
  "retry_actions ctxt request run =
     concat (map (\<lambda>k. request #
                    (if k < rr_calls run
                     then [Print (''  [retry] '' @ ctxt @ '': attempt '' @ show_nat (k + 1) @
                                  ''/3 in '' @ show_nat (rr_delays run ! (k - 1)) @ ''ms...'')]
                     else []))
               [1..<Suc (rr_calls run)])"

text \<open>
  \<^verbatim>\<open>ensureAuthor({ authorId, author })\<close>. A lookup answers with the \<^verbatim>\<open>_id\<close> of the
  document found, \<open>None\<close> when there is none. \<open>create_missing_author\<close> is the part of
  the function after the lookup by name has found nobody.
\<close>

definition create_missing_author ::
  "world \<Rightarrow> jsval \<Rightarrow> action list \<Rightarrow> (failure + string) \<times> action list" where
  "create_missing_author w author acts =
     (case slugify (js_string author) of
        Inl e \<Rightarrow> (Inl e, acts)
      | Inr s \<Rightarrow>
          (let authorDocId = makeDocumentId (w_DRAFT w) ''author'' s in
           if \<not> env_WRITE (w_env w)
           then (Inr authorDocId,
                 acts @ [Print (''  [dry] would create author: '' @ js_string author @
                                '' -> '' @ authorDocId)])
           else
             (let run = withRetry (w_createIfNotExists w authorDocId) 3 1000;
                  acts2 = acts @ retry_actions
                    (''create author '' @ [CHR 0x22] @ js_string author @ [CHR 0x22])
                    (CreateAuthor authorDocId) run
              in case rr_result run of
                   Throws err \<Rightarrow> (Inl (NetErr err), acts2)
                 | _ \<Rightarrow>
                     (Inr authorDocId,
                      acts2 @ [Print (''  [create] author: '' @ js_string author @
                                      '' -> '' @ authorDocId)]))))"

definition found_id :: "string option retry_result \<Rightarrow> string option" where
  "found_id r = (case r of Returns found \<Rightarrow> found | _ \<Rightarrow> None)"

definition ensureAuthor :: "world \<Rightarrow> jsval \<Rightarrow> jsval \<Rightarrow> (failure + string) \<times> action list" where
  "ensureAuthor w authorId author =
     (if truthy authorId then
        (let run = withRetry (w_fetchById w (js_string authorId)) 3 1000;
             acts = retry_actions (''fetch author '' @ js_string authorId)
                      (FetchAuthorById (js_string authorId)) run
         in case rr_result run of
              Throws err \<Rightarrow> (Inl (NetErr err), acts)
            | other \<Rightarrow>
                if \<not> truthy_str (found_id other)
                then (Inl (Err (''authorId not found: '' @ js_string authorId)), acts)
                else (Inr (js_string authorId), acts))
      else if \<not> truthy author then
        (Inl (Err (''Frontmatter must include 'author' (name) or 'authorId'.'')), [])
      else
        (let run = withRetry (w_fetchByName w (js_string author)) 3 1000;
             acts = retry_actions (''fetch author by name '' @ [CHR 0x22] @ js_string author @ [CHR 0x22])
                      (FetchAuthorByName (js_string author)) run
         in case rr_result run of
              Throws err \<Rightarrow> (Inl (NetErr err), acts)
            | other \<Rightarrow>
                if truthy_str (found_id other) then (Inr (the (found_id other)), acts)
                else create_missing_author w author acts))"
text \<open>
  How the uploader is driven. An upload settles under the retry wrapper with the
  answers \<open>w_assetsUpload w p\<close> of the backend to the requests for the path.
  \<^verbatim>\<open>Promise.all\<close> over the inline images makes all the
  calls first, in order; then the uploads settle and the clean-ups run. The model
  settles them in the order of the list and lets every upload finish before it reports
  a failure; of several failures it reports the first of the list. A call that is
  awaited on its own is the same with one path.
\<close>

definition settle :: "world \<Rightarrow> upload_state \<Rightarrow> string \<Rightarrow> upload_state" where
  "settle w s p = step (w_env w) s (Settle p (w_assetsUpload w p))"

definition cleanup :: "world \<Rightarrow> upload_state \<Rightarrow> string \<Rightarrow> upload_state" where
  "cleanup w s p = step (w_env w) s (Cleanup p)"

definition call_outcome :: "upload_state \<Rightarrow> string \<times> call_result \<Rightarrow> failure + string" where
  "call_outcome s pr =
     (case snd pr of
        Immediate a \<Rightarrow> Inr a
      | Shares g \<Rightarrow>
          (case outcomes s (fst pr) g of
             Some x \<Rightarrow> x
           | None \<Rightarrow> Inl (Err ''the upload has not settled'')))"

definition upload_all :: "world \<Rightarrow> upload_state \<Rightarrow> string list \<Rightarrow> (failure + string) list \<times> upload_state" where
  "upload_all w s paths =
     (let s1 = exec (w_env w) s (map Call paths);
          s2 = foldl (settle w) s1 paths;
          s3 = foldl (cleanup w) s2 paths
      in (map (call_outcome s3) (drop (length (results s)) (results s1)), s3))"

definition uploadImageAsset :: "world \<Rightarrow> upload_state \<Rightarrow> string \<Rightarrow> (failure + string) \<times> upload_state" where
  "uploadImageAsset w s p =
     (let (outs, s') = upload_all w s [p]
      in (case outs of [] \<Rightarrow> Inl (Err ''no call'') | out # _ \<Rightarrow> out, s'))"

fun all_results :: "(failure + 'a) list \<Rightarrow> failure + 'a list" where
  "all_results [] = Inr []"
| "all_results (Inl e # rs) = Inl e"
| "all_results (Inr a # rs) = (case all_results rs of Inl e \<Rightarrow> Inl e | Inr as \<Rightarrow> Inr (a # as))"

definition asset_actions :: "upload_state \<Rightarrow> upload_state \<Rightarrow> action list" where
  "asset_actions s s' = map AssetIO (drop (length (effects s)) (effects s'))"

text \<open>
  \<^verbatim>\<open>tokenToImageBlock[token] = { ... }\<close>: an assignment to a property of an object
  keeps the place of a key that is there and adds a new key at the end.
\<close>

definition obj_set :: "(string \<times> 'a) list \<Rightarrow> string \<Rightarrow> 'a \<Rightarrow> (string \<times> 'a) list" where
  "obj_set m k v =
     (if k \<in> fst ` set m then map (\<lambda>kv. if fst kv = k then (k, v) else kv) m else m @ [(k, v)])"

definition image_block :: "string \<Rightarrow> string \<Rightarrow> string \<Rightarrow> block" where
  "image_block assetId alt caption =
     \<lparr>b_type = ''image'', b_key = None, b_style = None, b_markDefs = None, b_children = None,
      b_asset = Some assetId, b_alt = Some (if alt = [] then ''Image'' else alt),
      b_caption = Some caption, b_other = []\<rparr>"

definition build_token_map :: "(image_ref \<times> string) list \<Rightarrow> (string \<times> block) list" where
  "build_token_map uploadResults =
     foldl (\<lambda>m r. obj_set m (img_token (fst r))
                     (image_block (snd r) (img_alt (fst r)) (img_caption (fst r))))
       [] uploadResults"

text \<open>
  The \<^verbatim>\<open>images.map\<close> that resolves every image path: the first image whose file is
  not there throws.
\<close>

fun resolve_images :: "world \<Rightarrow> string \<Rightarrow> image_ref list \<Rightarrow> failure + string list" where
  "resolve_images w mdFilePath [] = Inr []"
| "resolve_images w mdFilePath (i # is) =
     (case resolvePath w mdFilePath (img_src i) of
        None \<Rightarrow> Inl (Err (''Inline image not found: '' @ img_src i @ '' (resolved: null)''))
      | Some absPath \<Rightarrow>
          if \<not> w_existsSync w absPath
          then Inl (Err (''Inline image not found: '' @ img_src i @ '' (resolved: '' @ absPath @ '')''))
          else (case resolve_images w mdFilePath is of
                  Inl e \<Rightarrow> Inl e
                | Inr ps \<Rightarrow> Inr (absPath # ps)))"

text \<open>
  \<^verbatim>\<open>markdownToPortableTextWithInlineImages(mdFilePath, markdown)\<close>. It returns the body
  or the error thrown, the uploader's state, the key counter and what the uploader did.
\<close>

definition markdownToPortableTextWithInlineImages ::
  "world \<Rightarrow> string \<Rightarrow> string \<Rightarrow> upload_state \<Rightarrow> nat \<Rightarrow>
   (failure + block list) \<times> upload_state \<times> nat \<times> action list" where
  "markdownToPortableTextWithInlineImages w mdFilePath markdown us n =
     (let ex = extractInlineImages markdown;
          (pt1, n1) = ensureKeys (w_keys w) n (w_convert w (rewrittenMarkdown ex));
          pt = filterUnsupportedBlocks pt1
      in if length (images ex) = 0 then (Inr pt, us, n1, [])
         else
           (case resolve_images w mdFilePath (images ex) of
              Inl e \<Rightarrow> (Inl e, us, n1, [])
            | Inr paths \<Rightarrow>
                (let (outs, us') = upload_all w us paths;
                     acts = asset_actions us us'
                 in case all_results outs of
                      Inl e \<Rightarrow> (Inl e, us', n1, acts)
                    | Inr assetIds \<Rightarrow>
                        (let tokenToImageBlock = build_token_map (zip (images ex) assetIds)
                         in case replaceTokensWithImageBlocksPreserveMarks (w_keys w) n1 pt
                                   tokenToImageBlock of
                              None \<Rightarrow> (Inl (Err ''TypeError: block.children is not iterable''),
                                        us', n1, acts)
                            | Some (result, n2) \<Rightarrow>
                                (let (keyed, n3) = ensureKeys (w_keys w) n2 result
                                 in (Inr (filterUnsupportedBlocks keyed), us', n3, acts))))))"

text \<open>\<^verbatim>\<open>checkSlugCollision(slug, currentFile)\<close>: the warning, if any, and the map.\<close>

definition checkSlugCollision ::
  "jsval \<Rightarrow> string \<Rightarrow> (jsval \<rightharpoonup> string) \<Rightarrow> action list \<times> (jsval \<rightharpoonup> string)" where
  "checkSlugCollision slug currentFile slugToFile =
     (case slugToFile slug of
        Some existingFile \<Rightarrow>
          if existingFile \<noteq> currentFile
          then ([Print (''  [warn] Slug collision: '' @ [CHR 0x22] @ js_string slug @ [CHR 0x22] @
                        '' used by both:'' @ [CHR 0x0A] @ ''         - '' @ existingFile @ [CHR 0x0A] @
                        ''         - '' @ currentFile @ [CHR 0x0A] @
                        ''         The second file will overwrite the first!'')], slugToFile)
          else ([], slugToFile(slug \<mapsto> currentFile))
      | None \<Rightarrow> ([], slugToFile(slug \<mapsto> currentFile)))"

datatype import_result = Skipped | DryRun jsval | Imported jsval

text \<open>
  The second half of \<^verbatim>\<open>importFile\<close>, from the cover image on: the uploads, the body,
  the document and its upsert.
\<close>

definition import_document ::
  "world \<Rightarrow> string \<Rightarrow> frontmatter \<Rightarrow> string \<Rightarrow> jsval \<Rightarrow> jsval \<Rightarrow> jsval \<Rightarrow> string list \<Rightarrow>
   string \<Rightarrow> run_state \<Rightarrow> (failure + import_result) \<times> run_state \<times> action list" where
  "import_document w mdFilePath fm content slug publishedAt excerpt categories authorRef rs =
     (case (case fm_mainImage fm of
              JStr p \<Rightarrow> Inr (resolvePath w mdFilePath p)
            | _ \<Rightarrow> Inl (Err ''TypeError: the path argument must be of type string'')) of
        Inl e \<Rightarrow> (Inl e, rs, [])
      | Inr absCover \<Rightarrow>
          if absCover = None \<or> \<not> w_existsSync w (the absCover)
          then (Inl (Err (''mainImage file not found: '' @ js_string (fm_mainImage fm) @
                          '' (resolved: '' @ (case absCover of None \<Rightarrow> ''null'' | Some p \<Rightarrow> p) @ '')'')),
                rs, [])
          else
            (let (cover, us1) = uploadImageAsset w (rs_uploads rs) (the absCover);
                 acts1 = asset_actions (rs_uploads rs) us1
             in case cover of
                  Inl e \<Rightarrow> (Inl e, rs\<lparr>rs_uploads := us1\<rparr>, acts1)
                | Inr coverId \<Rightarrow>
                    (let (body, us2, n2, acts2) =
                           markdownToPortableTextWithInlineImages w mdFilePath content us1 (rs_nextKey rs);
                         rs2 = rs\<lparr>rs_uploads := us2, rs_nextKey := n2\<rparr>
                     in case body of
                          Inl e \<Rightarrow> (Inl e, rs2, acts1 @ acts2)
                        | Inr blocks \<Rightarrow>
                            (let docId = makeDocumentId (w_DRAFT w) ''post'' (js_string slug);
                                 doc = \<lparr>d_id = docId, d_type = ''post'', d_title = fm_title fm,
                                        d_slug = slug, d_author = authorRef,
                                        d_mainImage_ref = coverId,
                                        d_mainImage_alt = js_string (fm_mainImageAlt fm),
                                        d_publishedAt = publishedAt, d_excerpt = excerpt,
                                        d_body = blocks, d_categories = categories\<rparr>
                             in if \<not> env_WRITE (w_env w)
                                then (Inr (DryRun slug), rs2,
                                      acts1 @ acts2 @ [Print (''  [dry] would upsert: '' @ docId)])
                                else
                                  (let run = withRetry (w_createOrReplace w doc) 3 1000;
                                       acts3 = retry_actions
                                         (''upsert post '' @ [CHR 0x22] @ js_string slug @ [CHR 0x22])
                                         (Upsert doc) run
                                   in case rr_result run of
                                        Throws err \<Rightarrow> (Inl (NetErr err), rs2, acts1 @ acts2 @ acts3)
                                      | _ \<Rightarrow> (Inr (Imported slug), rs2,
                                               acts1 @ acts2 @ acts3 @
                                               [Print (''  [ok] upserted: '' @ docId)]))))))"

text \<open>
  \<^verbatim>\<open>importFile(mdFilePath, index, total)\<close>: the result or the error thrown, the state
  of the run and what was done, in order.
\<close>

definition importFile ::
  "world \<Rightarrow> string \<Rightarrow> nat \<Rightarrow> nat \<Rightarrow> run_state \<Rightarrow>
   (failure + import_result) \<times> run_state \<times> action list" where
  "importFile w mdFilePath index total_files rs =
     (let acts0 = [Print ([CHR 0x0A] @ ''['' @ show_nat (index + 1) @ ''/'' @ show_nat total_files @ ''] '' @
                          env_basename (w_env w) mdFilePath),
                   ReadText mdFilePath]
      in case readFileWithContext (env_readFileSync (w_env w)) mdFilePath ''markdown post'' of
           Inl e \<Rightarrow> (Inl e, rs, acts0)
         | Inr raw \<Rightarrow>
             (case w_matter w raw of
                Inl e \<Rightarrow> (Inl e, rs, acts0)
              | Inr (fm, content) \<Rightarrow>
                  (case validateFrontmatter (w_dateParse w) fm mdFilePath of
                     Inl msg \<Rightarrow> (Inl (Err msg), rs, acts0)
                   | Inr ok \<Rightarrow>
                       (case (if truthy (fm_slug fm) then Inr (fm_slug fm)
                              else map_sum id JStr (slugify (js_string (fm_title fm)))) of
                          Inl e \<Rightarrow> (Inl e, rs, acts0)
                        | Inr slug \<Rightarrow>
                            (let (warn, slugs) = checkSlugCollision slug mdFilePath (rs_slugToFile rs);
                                 rs1 = rs\<lparr>rs_slugToFile := slugs\<rparr>;
                                 publishedAt = (if truthy (fm_publishedAt fm) then fm_publishedAt fm
                                                else JStr (w_now w));
                                 excerpt = (if truthy (fm_excerpt fm) then fm_excerpt fm else JNull);
                                 categories = (case fm_categories fm of
                                                 Some xs \<Rightarrow> map js_string xs | None \<Rightarrow> [])
                             in if truthy_str (w_ONLY w) \<and> slug \<noteq> JStr (the (w_ONLY w))
                                then (Inr Skipped, rs1,
                                      acts0 @ warn @
                                      [Print (''  [skip] slug '' @ [CHR 0x22] @ js_string slug @ [CHR 0x22] @
                                              '' does not match --only '' @ [CHR 0x22] @ the (w_ONLY w) @
                                              [CHR 0x22])])
                                else
                                  (let (author, acts1) = ensureAuthor w (fm_authorId fm) (fm_author fm)
                                   in case author of
                                        Inl e \<Rightarrow> (Inl e, rs1, acts0 @ warn @ acts1)
                                      | Inr authorRef \<Rightarrow>
                                          (let (res, rs2, acts2) =
                                                 import_document w mdFilePath fm content slug publishedAt
                                                   excerpt categories authorRef rs1
                                           in (res, rs2, acts0 @ warn @ acts1 @ acts2))))))))"
section \<open>A dry run\<close>




text \<open>A paragraph of one unmarked span, as the converter gives it for a line of plain text.\<close>

definition plain_span :: "string \<Rightarrow> child" where
  "plain_span t = \<lparr>c_type = ''span'', c_key = None, c_text = Some t, c_marks = [], c_other = []\<rparr>"

definition plain_block :: "string \<Rightarrow> block" where
  "plain_block t =
     \<lparr>b_type = ''block'', b_key = None, b_style = Some ''normal'', b_markDefs = Some [],
      b_children = Some [plain_span t], b_asset = None, b_alt = None, b_caption = None,
      b_other = []\<rparr>"

text \<open>
  A world that does not write: a post with a cover image and one inline image, whose
  author exists in the backend under an id of the backend's own.
\<close>

definition dry_world :: world where
  "dry_world =
     \<lparr>w_env = \<lparr>env_WRITE = False, env_getType = (\<lambda>p. Some ''image/png''),
               env_readFileSync = (\<lambda>p. Inr ''raw''), env_basename = (\<lambda>p. p)\<rparr>,
      w_DRAFT = False, w_ONLY = None,
      w_matter = (\<lambda>raw. Inr
        (\<lparr>fm_title = JStr ''Hello World'', fm_slug = JUndefined, fm_author = JStr ''Doc Spinard'',
          fm_authorId = JUndefined, fm_mainImage = JStr ''cover.png'',
          fm_mainImageAlt = JStr ''Cover'', fm_publishedAt = JUndefined, fm_excerpt = JUndefined,
          fm_categories = None\<rparr>, ''Intro ![cat](cat.png) end'')),
      w_dateParse = (\<lambda>s. None), w_now = ''2026-01-01T00:00:00.000Z'',
      w_isAbsolute = (\<lambda>p. True), w_resolve = (\<lambda>f p. p), w_existsSync = (\<lambda>p. True),
      w_convert = (\<lambda>s. [plain_block ''Intro'', plain_block ''[[[SANITY_IMAGE_0]]]'',
                          plain_block ''end'']),
      w_keys = (\<lambda>n. ''K'' @ show_nat n),
      w_fetchById = (\<lambda>i k. Inr None), w_fetchByName = (\<lambda>i k. Inr (Some ''abc123'')),
      w_createIfNotExists = (\<lambda>i k. Inr ()), w_assetsUpload = (\<lambda>p k. Inr (''image-'' @ p)),
      w_createOrReplace = (\<lambda>d k. Inr ())\<rparr>"

subsection \<open>The uploader in a dry run\<close>










subsection \<open>The importer in a dry run\<close>

lemma retry_actions_members:
  "a \<in> set (retry_actions ctxt request run) \<Longrightarrow> a = request \<or> (\<exists>l. a = Print l)"
  by (auto simp: retry_actions_def split: if_splits)











section \<open>No token is left in the text\<close>

text \<open>
  \<open>span_clean tokens c\<close>: the child \<open>c\<close> is not a span, or no token occurs in its
  text. \<open>text_clean tokens b\<close>: the block \<open>b\<close> is not a text block, or all its children
  are clean.
\<close>

definition span_clean :: "string list \<Rightarrow> child \<Rightarrow> bool" where
  "span_clean tokens c \<longleftrightarrow>
     c_type c \<noteq> ''span'' \<or> list_all (\<lambda>t. \<not> includes_str (span_text c) t) tokens"

definition text_clean :: "string list \<Rightarrow> block \<Rightarrow> bool" where
  "text_clean tokens b \<longleftrightarrow>
     b_type b \<noteq> ''block'' \<or>
     (case b_children b of None \<Rightarrow> True | Some cs \<Rightarrow> list_all (span_clean tokens) cs)"

definition split_clean :: "string list \<Rightarrow> split_state \<Rightarrow> bool" where
  "split_clean tokens st \<longleftrightarrow>
     list_all (text_clean tokens) (st_out st) \<and> text_clean tokens (st_current st)"

subsection \<open>The first occurrence\<close>

lemma indexOf_least:
  "s = pre @ t @ post \<Longrightarrow> \<exists>i \<le> length pre. indexOf s t = Some i"
proof (induction s arbitrary: pre)
  case Nil
  then show ?case by simp
next
  case (Cons c cs)
  show ?case
  proof (cases "prefix t (c # cs)")
    case True
    then show ?thesis by simp
  next
    case False
    show ?thesis
    proof (cases pre)
      case Nil
      with Cons.prems False show ?thesis by (auto simp: prefix_def)
    next
      case (Cons p ps)
      with Cons.prems have "cs = ps @ t @ post" by simp
      from Cons.IH[OF this] obtain i where "i \<le> length ps" "indexOf cs t = Some i" by blast
      with False Cons show ?thesis by simp
    qed
  qed
qed

lemma nearest_token_least:
  "nearest_token ts s best = Some (idx, t) \<Longrightarrow>
   (\<forall>t' \<in> set ts. \<forall>j. indexOf s t' = Some j \<longrightarrow> idx \<le> j) \<and>
   (\<forall>i0 t0. best = Some (i0, t0) \<longrightarrow> idx \<le> i0)"
proof (induction ts arbitrary: best)
  case Nil
  then show ?case by simp
next
  case (Cons a ts)
  let ?b = "case indexOf s a of
              None \<Rightarrow> best
            | Some i \<Rightarrow>
                (case best of
                   None \<Rightarrow> Some (i, a)
                 | Some (nearestIdx, nearestToken) \<Rightarrow>
                     if i < nearestIdx then Some (i, a) else best)"
  from Cons.prems have "nearest_token ts s ?b = Some (idx, t)" by simp
  from Cons.IH[OF this] have rest: "\<forall>t' \<in> set ts. \<forall>j. indexOf s t' = Some j \<longrightarrow> idx \<le> j"
    and b: "\<forall>i0 t0. ?b = Some (i0, t0) \<longrightarrow> idx \<le> i0" by blast+
  from b have "\<forall>j. indexOf s a = Some j \<longrightarrow> idx \<le> j"
    by (cases best) (auto split: option.splits if_splits)
  moreover from b have "\<forall>i0 t0. best = Some (i0, t0) \<longrightarrow> idx \<le> i0"
    by (cases "indexOf s a") (auto split: if_splits)
  ultimately show ?case using rest by simp
qed

lemma nearest_token_none:
  "nearest_token ts s best = None \<Longrightarrow> best = None \<and> (\<forall>t \<in> set ts. indexOf s t = None)"
proof (induction ts arbitrary: best)
  case Nil
  then show ?case by simp
next
  case (Cons a ts)
  let ?b = "case indexOf s a of
              None \<Rightarrow> best
            | Some i \<Rightarrow>
                (case best of
                   None \<Rightarrow> Some (i, a)
                 | Some (nearestIdx, nearestToken) \<Rightarrow>
                     if i < nearestIdx then Some (i, a) else best)"
  from Cons.prems have "nearest_token ts s ?b = None" by simp
  from Cons.IH[OF this] have rest: "\<forall>t \<in> set ts. indexOf s t = None" and b: "?b = None" by blast+
  from b have "best = None \<and> indexOf s a = None"
    by (cases "indexOf s a"; cases best) (auto split: if_splits)
  with rest show ?case by simp
qed

lemma remainder_clean:
  "nearest_token ts s None = None \<Longrightarrow> list_all (\<lambda>t. \<not> includes_str s t) ts"
  by (auto simp: list_all_iff includes_str_def dest: nearest_token_none)

lemma before_clean:
  assumes hit: "nearest_token ts s None = Some (idx, t)" and ne: "[] \<notin> set ts"
  shows "list_all (\<lambda>t'. \<not> includes_str (take idx s) t') ts"
proof -
  have "\<not> includes_str (take idx s) t'" if mem: "t' \<in> set ts" for t'
  proof
    assume "includes_str (take idx s) t'"
    then obtain pre post where p: "take idx s = pre @ t' @ post"
      by (auto simp: includes_str_iff)
    have "s = pre @ t' @ (post @ drop idx s)"
      using p append_take_drop_id[of idx s] by (metis append.assoc)
    from indexOf_least[OF this] obtain j where j: "j \<le> length pre" "indexOf s t' = Some j" by blast
    from nearest_token_least[OF hit] mem j(2) have "idx \<le> j" by blast
    moreover from mem ne have "t' \<noteq> []" by auto
    then have "length pre < length (take idx s)" by (simp add: p)
    then have "length pre < idx" by simp
    ultimately show False using j(1) by simp
  qed
  then show ?thesis by (simp add: list_all_iff)
qed

subsection \<open>The split leaves clean text\<close>

lemma text_clean_new: "text_clean tokens (new_paragraph gen n blk)"
  by (simp add: text_clean_def new_paragraph_def)

lemma text_clean_push:
  "text_clean tokens b \<Longrightarrow> span_clean tokens c \<Longrightarrow> text_clean tokens (push_child c b)"
  by (auto simp: text_clean_def push_child_def split: option.splits)

lemma split_clean_push_span:
  assumes "split_clean tokens st" "list_all (\<lambda>t. \<not> includes_str frag t) tokens"
  shows "split_clean tokens (push_span gen c frag st)"
proof -
  have "span_clean tokens (c\<lparr>c_key := Some (gen (st_next st)), c_text := Some frag\<rparr>)"
    using assms(2) by (simp add: span_clean_def span_text_def)
  with assms(1) show ?thesis by (simp add: split_clean_def push_span_def text_clean_push)
qed

lemma includes_str_empty: "includes_str [] t \<longleftrightarrow> t = []"
  by (simp add: includes_str_def)

lemma split_clean_push_keyed:
  assumes "split_clean tokens st" "[] \<notin> set tokens"
      and "c_text c = None \<or> c_type c \<noteq> ''span''"
      and "child_with_key gen (st_next st) c = (c', n)"
  shows "split_clean tokens (st\<lparr>st_current := push_child c' (st_current st), st_next := n\<rparr>)"
proof -
  from assms(4) have same: "c_type c' = c_type c" "c_text c' = c_text c"
    by (auto simp: child_with_key_def split: if_splits)
  have "span_clean tokens c'"
  proof (cases "c_type c = ''span''")
    case True
    with assms(3) have "c_text c = None" by simp
    with same have "span_text c' = []" by (simp add: span_text_def)
    with assms(2) show ?thesis
      by (auto simp: span_clean_def includes_str_empty list_all_iff)
  next
    case False
    with same show ?thesis by (simp add: span_clean_def)
  qed
  with assms(1) show ?thesis by (simp add: split_clean_def text_clean_push)
qed

lemma split_clean_flush:
  "split_clean tokens st \<Longrightarrow> split_clean tokens (flushCurrent gen blk st)"
  by (simp add: split_clean_def flushCurrent_def text_clean_new)

lemma image_with_key_type:
  assumes "list_all (\<lambda>kv. b_type (snd kv) \<noteq> ''block'') tmap"
  shows "b_type (image_with_key tmap t k) \<noteq> ''block''"
proof (cases "map_of tmap t")
  case None
  then show ?thesis by (simp add: image_with_key_def)
next
  case (Some img)
  then have "(t, img) \<in> set tmap" by (rule map_of_SomeD)
  with assms have "b_type img \<noteq> ''block''" by (auto simp: list_all_iff)
  with Some show ?thesis by (simp add: image_with_key_def)
qed

lemma split_clean_emit:
  assumes "split_clean tokens st" "list_all (\<lambda>kv. b_type (snd kv) \<noteq> ''block'') tmap"
  shows "split_clean tokens (emit_image gen tmap t st)"
  using assms(1) image_with_key_type[OF assms(2)]
  by (simp add: split_clean_def emit_image_def text_clean_def)

lemma split_text_clean:
  "[] \<notin> set tokens \<Longrightarrow> list_all (\<lambda>kv. b_type (snd kv) \<noteq> ''block'') tmap \<Longrightarrow>
   split_clean tokens st \<Longrightarrow>
   split_clean tokens (split_text gen blk tokens tmap c s st)"
proof (induction gen blk tokens tmap c s st rule: split_text.induct)
  case (1 gen blk tokens tmap c s st)
  note ne = "1.prems"(1) and ty = "1.prems"(2) and inv = "1.prems"(3)
  show ?case
  proof (cases "nearest_token tokens s None")
    case None
    then have eq: "split_text gen blk tokens tmap c s st =
        (if length s > 0 then push_span gen c s st else st)"
      by (intro split_text_miss disjI1)
    from None have "list_all (\<lambda>t. \<not> includes_str s t) tokens" by (rule remainder_clean)
    with inv have "split_clean tokens (if length s > 0 then push_span gen c s st else st)"
      by (simp add: split_clean_push_span)
    then show ?thesis by (simp only: eq)
  next
    case (Some p)
    obtain idx t where p: "p = (idx, t)" by (cases p)
    note hit = Some[unfolded p]
    from nearest_token_index[OF hit] ne have False: "t \<noteq> []" by auto
    let ?before = "take idx s"
    let ?after = "drop (idx + length t) s"
    let ?st1 = "if length ?before > 0 then push_span gen c ?before st else st"
    let ?st3 = "emit_image gen tmap t (flushCurrent gen blk ?st1)"
    from hit ne have "list_all (\<lambda>t'. \<not> includes_str ?before t') tokens" by (rule before_clean)
    with inv have "split_clean tokens ?st1" by (simp add: split_clean_push_span)
    then have "split_clean tokens (flushCurrent gen blk ?st1)" by (rule split_clean_flush)
    then have i3: "split_clean tokens ?st3" using ty by (rule split_clean_emit)
    have "split_clean tokens (split_text gen blk tokens tmap c ?after ?st3)"
      by (rule "1.IH"[OF hit refl False refl refl refl refl refl ne ty i3])
    then show ?thesis by (simp only: split_text_hit[OF hit False])
  qed
qed

lemma split_children_clean:
  "[] \<notin> set tokens \<Longrightarrow> list_all (\<lambda>kv. b_type (snd kv) \<noteq> ''block'') tmap \<Longrightarrow>
   split_clean tokens st \<Longrightarrow>
   split_clean tokens (split_children gen blk tokens tmap cs st)"
proof (induction cs arbitrary: st)
  case Nil
  then show ?case by simp
next
  case (Cons c cs)
  note ne = Cons.prems(1) and ty = Cons.prems(2) and inv = Cons.prems(3)
  obtain c' n where k: "child_with_key gen (st_next st) c = (c', n)"
    by (cases "child_with_key gen (st_next st) c")
  show ?case
  proof (cases "c_text c = None \<or> c_type c \<noteq> ''span''")
    case True
    with inv ne k
    have "split_clean tokens (st\<lparr>st_current := push_child c' (st_current st), st_next := n\<rparr>)"
      by (intro split_clean_push_keyed[where c = c]) simp_all
    from Cons.IH[OF ne ty this] True k show ?thesis
      by (cases "c_text c") auto
  next
    case False
    then obtain s where s: "c_text c = Some s" and sp: "c_type c = ''span''" by auto
    have "split_clean tokens (split_text gen blk tokens tmap c s st)"
      using ne ty inv by (rule split_text_clean)
    from Cons.IH[OF ne ty this] s sp show ?thesis by simp
  qed
qed

lemma splitBlock_clean:
  assumes "splitBlockByTokensPreserveMarks gen n blk tokens tmap = Some (out, n')"
      and "[] \<notin> set tokens" "list_all (\<lambda>kv. b_type (snd kv) \<noteq> ''block'') tmap"
  shows "list_all (text_clean tokens) out"
proof -
  from assms(1) obtain cs where cs: "b_children blk = Some cs"
    by (cases "b_children blk") (simp_all add: splitBlockByTokensPreserveMarks_def)
  let ?st0 = "\<lparr>st_out = [], st_current = new_paragraph gen n blk, st_next = Suc n\<rparr>"
  have "split_clean tokens ?st0" by (simp add: split_clean_def text_clean_new)
  with assms(2,3) have "split_clean tokens (split_children gen blk tokens tmap cs ?st0)"
    by (rule split_children_clean)
  then have "split_clean tokens (flushCurrent gen blk (split_children gen blk tokens tmap cs ?st0))"
    by (rule split_clean_flush)
  moreover from assms(1) cs have
    "out = st_out (flushCurrent gen blk (split_children gen blk tokens tmap cs ?st0))"
    by (simp add: splitBlockByTokensPreserveMarks_def Let_def)
  ultimately show ?thesis by (simp add: split_clean_def)
qed
lemma includes_str_concat:
  assumes "x \<in> set xs" "includes_str (f x) t"
  shows "includes_str (concat (map f xs)) t"
proof -
  from assms(1) obtain ys zs where xs: "xs = ys @ x # zs" by (auto dest: split_list)
  from assms(2) obtain pre post where fx: "f x = pre @ t @ post" by (auto simp: includes_str_iff)
  have "concat (map f xs) = (concat (map f ys) @ pre) @ t @ (post @ concat (map f zs))"
    by (simp add: xs fx)
  then show ?thesis unfolding includes_str_iff by blast
qed

lemma text_clean_no_token:
  assumes "[] \<notin> set tokens" "\<not> blockContainsAnyToken b tokens"
  shows "text_clean tokens b"
proof (cases "b_children b")
  case None
  then show ?thesis by (simp add: text_clean_def)
next
  case (Some cs)
  show ?thesis
  proof (cases "b_type b = ''block''")
    case False
    then show ?thesis by (simp add: text_clean_def)
  next
    case True
    let ?spans = "filter (\<lambda>c. c_type c = ''span'' \<and> c_text c \<noteq> None) cs"
    from assms(2) Some True have none:
      "\<forall>t \<in> set tokens. \<not> includes_str (concat (map span_text ?spans)) t"
      by (simp add: blockContainsAnyToken_def list_ex_iff)
    have "span_clean tokens c" if c: "c \<in> set cs" for c
    proof (cases "c_type c = ''span''")
      case False
      then show ?thesis by (simp add: span_clean_def)
    next
      case span: True
      have "\<not> includes_str (span_text c) t" if t: "t \<in> set tokens" for t
      proof (cases "c_text c")
        case None
        with t assms(1) show ?thesis by (auto simp: span_text_def includes_str_empty)
      next
        case (Some s)
        with c span have "c \<in> set ?spans" by simp
        with none t show ?thesis by (blast dest: includes_str_concat)
      qed
      then show ?thesis by (simp add: span_clean_def list_all_iff)
    qed
    with Some show ?thesis by (simp add: text_clean_def list_all_iff)
  qed
qed

text \<open>The loop over the blocks, one block at a time.\<close>

lemma replace_blocks_Cons:
  "replace_blocks gen tokens tmap (b # bs) n =
     (case replace_blocks gen tokens tmap [b] n of
        None \<Rightarrow> None
      | Some (out1, n1) \<Rightarrow>
          (case replace_blocks gen tokens tmap bs n1 of
             None \<Rightarrow> None
           | Some (out2, n2) \<Rightarrow> Some (out1 @ out2, n2)))"
  by (simp split: option.splits prod.splits)

lemma replace_block_cases:
  assumes "replace_blocks gen tokens tmap [b] n = Some (out, n')"
  shows "(b_type b \<noteq> ''block'' \<and> out = [fst (block_with_key gen n b)]) \<or>
         (b_type b = ''block'' \<and> (\<exists>t \<in> set tokens. t \<noteq> [] \<and> isTokenOnlyBlock b t \<and>
             find (\<lambda>t. isTokenOnlyBlock b t) tokens = Some t \<and>
             out = [image_with_key tmap t (gen n)] \<and> n' = Suc n)) \<or>
         (b_type b = ''block'' \<and> blockContainsAnyToken b tokens \<and>
             (\<forall>t. find (\<lambda>t. isTokenOnlyBlock b t) tokens = Some t \<longrightarrow> t = []) \<and>
             splitBlockByTokensPreserveMarks gen n b tokens tmap = Some (out, n')) \<or>
         (b_type b = ''block'' \<and> \<not> blockContainsAnyToken b tokens \<and>
             (\<forall>t. find (\<lambda>t. isTokenOnlyBlock b t) tokens = Some t \<longrightarrow> t = []) \<and>
             out = [b] \<and> n' = n)"
proof (cases "b_type b = ''block''")
  case False
  with assms show ?thesis by (auto simp: split_beta)
next
  case True
  show ?thesis
  proof (cases "find (\<lambda>t. isTokenOnlyBlock b t) tokens")
    case None
    with assms True show ?thesis
      by (auto split: if_splits option.splits)
  next
    case (Some t)
    then have "t \<in> set tokens" "isTokenOnlyBlock b t"
      by (auto simp: find_Some_iff)
    with assms True Some show ?thesis
      by (auto split: if_splits option.splits)
  qed
qed

lemma replace_block_clean:
  assumes "replace_blocks gen tokens tmap [b] n = Some (out, n')"
      and "[] \<notin> set tokens" "list_all (\<lambda>kv. b_type (snd kv) \<noteq> ''block'') tmap"
  shows "list_all (text_clean tokens) out"
  using replace_block_cases[OF assms(1)]
proof (elim disjE conjE bexE)
  assume "b_type b \<noteq> ''block''" "out = [fst (block_with_key gen n b)]"
  then show ?thesis by (simp add: text_clean_def block_with_key_def)
next
  fix t assume "out = [image_with_key tmap t (gen n)]"
  with image_with_key_type[OF assms(3)] show ?thesis by (simp add: text_clean_def)
next
  assume "splitBlockByTokensPreserveMarks gen n b tokens tmap = Some (out, n')"
  then show ?thesis using assms(2,3) by (rule splitBlock_clean)
next
  assume "\<not> blockContainsAnyToken b tokens" "out = [b]"
  with assms(2) show ?thesis by (simp add: text_clean_no_token)
qed

lemma replace_blocks_clean:
  assumes "[] \<notin> set tokens" "list_all (\<lambda>kv. b_type (snd kv) \<noteq> ''block'') tmap"
  shows "replace_blocks gen tokens tmap bs n = Some (out, n') \<Longrightarrow> list_all (text_clean tokens) out"
proof (induction bs arbitrary: n out)
  case Nil
  then show ?case by simp
next
  case (Cons b bs)
  from Cons.prems obtain out1 n1 out2 where
    h: "replace_blocks gen tokens tmap [b] n = Some (out1, n1)" and
    r: "replace_blocks gen tokens tmap bs n1 = Some (out2, n')" and
    out: "out = out1 @ out2"
    by (subst (asm) replace_blocks_Cons) (auto split: option.splits)
  from h assms have "list_all (text_clean tokens) out1" by (rule replace_block_clean)
  moreover from r have "list_all (text_clean tokens) out2" by (rule Cons.IH)
  ultimately show ?case by (simp add: out)
qed

subsection \<open>Keys and the filter leave the text as it is\<close>

lemma child_with_key_clean:
  "span_clean tokens (fst (child_with_key gen n c)) = span_clean tokens c"
  by (simp add: child_with_key_def span_clean_def span_text_def)

lemma children_with_keys_clean:
  "list_all (span_clean tokens) (fst (children_with_keys gen n cs)) = list_all (span_clean tokens) cs"
proof (induction cs arbitrary: n)
  case Nil
  show ?case by simp
next
  case (Cons c cs)
  show ?case
    using Cons.IH[of "snd (child_with_key gen n c)"] child_with_key_clean[of tokens gen n c]
    by (simp add: split_beta)
qed

lemma ensureKeys_clean:
  "list_all (text_clean tokens) (fst (ensureKeys gen n bs)) = list_all (text_clean tokens) bs"
proof (induction bs arbitrary: n)
  case Nil
  show ?case by simp
next
  case (Cons b bs)
  let ?bk = "block_with_key gen n b"
  let ?b1 = "case b_children (fst ?bk) of
               None \<Rightarrow> (fst ?bk, snd ?bk)
             | Some cs \<Rightarrow> (let (cs1, n') = children_with_keys gen (snd ?bk) cs
                           in ((fst ?bk)\<lparr>b_children := Some cs1\<rparr>, n'))"
  have ty: "b_type (fst ?bk) = b_type b" and ch: "b_children (fst ?bk) = b_children b"
    by (simp_all add: block_with_key_def)
  have "text_clean tokens (fst ?b1) = text_clean tokens b"
  proof (cases "b_children b")
    case None
    with ty ch show ?thesis by (simp add: text_clean_def)
  next
    case (Some cs)
    with ty ch children_with_keys_clean[of tokens gen "snd ?bk" cs] show ?thesis
      by (simp add: text_clean_def split_beta)
  qed
  moreover have "ensureKeys gen n (b # bs) = (fst ?b1 # fst (ensureKeys gen (snd ?b1) bs),
      snd (ensureKeys gen (snd ?b1) bs))"
    by (simp add: split_beta Let_def)
  ultimately show ?case using Cons.IH[of "snd ?b1"] by simp
qed

lemma filterUnsupportedBlocks_clean:
  "list_all (text_clean tokens) bs \<Longrightarrow> list_all (text_clean tokens) (filterUnsupportedBlocks bs)"
  by (simp add: filterUnsupportedBlocks_def list_all_iff)

subsection \<open>The map from tokens to images\<close>

lemma build_token_map_snoc:
  "build_token_map (rs @ [r]) =
     obj_set (build_token_map rs) (img_token (fst r))
       (image_block (snd r) (img_alt (fst r)) (img_caption (fst r)))"
  by (simp add: build_token_map_def)

lemma build_token_map_distinct:
  "distinct (map (\<lambda>r. img_token (fst r)) rs) \<Longrightarrow>
   build_token_map rs =
     map (\<lambda>r. (img_token (fst r), image_block (snd r) (img_alt (fst r)) (img_caption (fst r)))) rs"
proof (induction rs rule: rev_induct)
  case Nil
  show ?case by (simp add: build_token_map_def)
next
  case (snoc r rs)
  from snoc.prems have d: "distinct (map (\<lambda>r. img_token (fst r)) rs)"
    and new: "img_token (fst r) \<notin> (\<lambda>r. img_token (fst r)) ` set rs" by simp_all
  from new have "img_token (fst r) \<notin> fst ` set (build_token_map rs)"
    by (simp add: snoc.IH[OF d] image_image)
  then show ?case
    by (simp add: build_token_map_snoc obj_set_def snoc.IH[OF d])
qed

lemma all_results_length: "all_results outs = Inr xs \<Longrightarrow> length xs = length outs"
proof (induction outs arbitrary: xs rule: all_results.induct)
  case 1
  then show ?case by simp
next
  case (2 e rs)
  then show ?case by simp
next
  case (3 a rs)
  then show ?case by (auto split: sum.splits)
qed

lemma resolve_images_length:
  "resolve_images w mdFilePath imgs = Inr ps \<Longrightarrow> length ps = length imgs"
proof (induction imgs arbitrary: ps)
  case Nil
  then show ?case by simp
next
  case (Cons i imgs)
  then show ?case by (auto split: option.splits if_splits sum.splits)
qed

lemma results_call: "length (results (step env s (Call p))) = Suc (length (results s))"
  by (simp add: start_upload_def reject_now_def split: option.splits sum.splits)

lemma results_calls:
  "length (results (exec env s (map Call ps))) = length (results s) + length ps"
  unfolding exec_def
proof (induction ps arbitrary: s)
  case Nil
  show ?case by simp
next
  case (Cons p ps)
  show ?case using Cons.IH[of "step env s (Call p)"] results_call[of env s p]
    by (simp del: step.simps)
qed

lemma upload_all_length: "length (fst (upload_all w s ps)) = length ps"
  by (simp add: upload_all_def Let_def results_calls)

text \<open>
  When the pipeline gets as far as the replacement, the map has an entry for every
  image, in the order of the images: the token and the image block of the reference.
\<close>

lemma token_map_entries:
  assumes "length ids = length (images (extractInlineImages md))"
  shows "build_token_map (zip (images (extractInlineImages md)) ids) =
           map (\<lambda>i. (token i, image_block (ids ! i)
                                 (img_alt (images (extractInlineImages md) ! i))
                                 (img_caption (images (extractInlineImages md) ! i))))
             [0..<length (images (extractInlineImages md))]"
proof -
  let ?imgs = "images (extractInlineImages md)"
  have toks: "map img_token ?imgs = map token [0..<length ?imgs]"
    using extract_from_tokens[of 0 md] by (simp add: extractInlineImages_def split_beta)
  have "map (\<lambda>r. img_token (fst r)) (zip ?imgs ids) = map img_token ?imgs"
    using assms by (simp add: map_fst_zip flip: map_map[of img_token fst, unfolded comp_def])
  with toks have m: "map (\<lambda>r. img_token (fst r)) (zip ?imgs ids) = map token [0..<length ?imgs]"
    by simp
  then have "distinct (map (\<lambda>r. img_token (fst r)) (zip ?imgs ids))"
    by (simp add: distinct_map_token)
  from build_token_map_distinct[OF this] have
    "build_token_map (zip ?imgs ids) =
       map (\<lambda>r. (img_token (fst r), image_block (snd r) (img_alt (fst r)) (img_caption (fst r))))
         (zip ?imgs ids)" .
  also have "\<dots> = map (\<lambda>i. (token i, image_block (ids ! i) (img_alt (?imgs ! i))
                                 (img_caption (?imgs ! i)))) [0..<length ?imgs]"
  proof (rule nth_equalityI)
    show "length (map (\<lambda>r. (img_token (fst r), image_block (snd r) (img_alt (fst r))
                       (img_caption (fst r)))) (zip ?imgs ids)) =
          length (map (\<lambda>i. (token i, image_block (ids ! i) (img_alt (?imgs ! i))
                                 (img_caption (?imgs ! i)))) [0..<length ?imgs])"
      using assms by simp
  next
    fix i assume "i < length (map (\<lambda>r. (img_token (fst r), image_block (snd r) (img_alt (fst r))
                       (img_caption (fst r)))) (zip ?imgs ids))"
    then have i: "i < length ?imgs" "i < length ids" using assms by simp_all
    from toks i(1) have "img_token (?imgs ! i) = token i"
      by (metis (no_types, lifting) add_0 length_map nth_map nth_upt)
    with i show "map (\<lambda>r. (img_token (fst r), image_block (snd r) (img_alt (fst r))
                       (img_caption (fst r)))) (zip ?imgs ids) ! i =
          map (\<lambda>i. (token i, image_block (ids ! i) (img_alt (?imgs ! i))
                                 (img_caption (?imgs ! i)))) [0..<length ?imgs] ! i"
      by simp
  qed
  finally show ?thesis .
qed
subsection \<open>The body the pipeline returns\<close>

lemma pipeline_body:
  assumes "markdownToPortableTextWithInlineImages w mdFilePath markdown us n = (Inr body, us', n', acts)"
  shows "(length (images (extractInlineImages markdown)) = 0 \<and>
          body = filterUnsupportedBlocks
                   (fst (ensureKeys (w_keys w) n
                      (w_convert w (rewrittenMarkdown (extractInlineImages markdown)))))) \<or>
         (\<exists>ids result n2.
            length ids = length (images (extractInlineImages markdown)) \<and>
            replaceTokensWithImageBlocksPreserveMarks (w_keys w)
              (snd (ensureKeys (w_keys w) n
                      (w_convert w (rewrittenMarkdown (extractInlineImages markdown)))))
              (filterUnsupportedBlocks
                 (fst (ensureKeys (w_keys w) n
                    (w_convert w (rewrittenMarkdown (extractInlineImages markdown))))))
              (build_token_map (zip (images (extractInlineImages markdown)) ids)) =
                Some (result, n2) \<and>
            body = filterUnsupportedBlocks (fst (ensureKeys (w_keys w) n2 result)))"
proof -
  let ?ex = "extractInlineImages markdown"
  show ?thesis
  proof (cases "length (images ?ex) = 0")
    case True
    with assms show ?thesis
      by (auto simp: markdownToPortableTextWithInlineImages_def Let_def split_beta)
  next
    case some: False
    from some assms obtain paths where paths: "resolve_images w mdFilePath (images ?ex) = Inr paths"
      by (cases "resolve_images w mdFilePath (images ?ex)")
         (auto simp: markdownToPortableTextWithInlineImages_def Let_def split_beta)
    from some paths assms obtain ids where ids: "all_results (fst (upload_all w us paths)) = Inr ids"
      by (cases "all_results (fst (upload_all w us paths))")
         (auto simp: markdownToPortableTextWithInlineImages_def Let_def split_beta)
    have "length ids = length (images ?ex)"
      using all_results_length[OF ids] resolve_images_length[OF paths]
      by (simp add: upload_all_length)
    moreover from some paths ids assms have
      "\<exists>result n2.
         replaceTokensWithImageBlocksPreserveMarks (w_keys w)
              (snd (ensureKeys (w_keys w) n (w_convert w (rewrittenMarkdown ?ex))))
              (filterUnsupportedBlocks
                 (fst (ensureKeys (w_keys w) n (w_convert w (rewrittenMarkdown ?ex)))))
              (build_token_map (zip (images ?ex) ids)) = Some (result, n2) \<and>
         body = filterUnsupportedBlocks (fst (ensureKeys (w_keys w) n2 result))"
      by (auto simp: markdownToPortableTextWithInlineImages_def Let_def split_beta
               split: option.splits)
    ultimately show ?thesis by blast
  qed
qed

lemma pipeline_clean:
  assumes "markdownToPortableTextWithInlineImages w mdFilePath markdown us n = (Inr body, us', n', acts)"
  shows "list_all (text_clean (map token [0..<length (images (extractInlineImages markdown))])) body"
  using pipeline_body[OF assms]
proof (elim disjE conjE exE)
  assume "length (images (extractInlineImages markdown)) = 0"
  then show ?thesis by (simp add: text_clean_def span_clean_def list_all_iff split: option.splits)
next
  fix ids result n2
  let ?N = "length (images (extractInlineImages markdown))"
  let ?tmap = "build_token_map (zip (images (extractInlineImages markdown)) ids)"
  assume len: "length ids = ?N"
    and rep: "replaceTokensWithImageBlocksPreserveMarks (w_keys w)
              (snd (ensureKeys (w_keys w) n
                      (w_convert w (rewrittenMarkdown (extractInlineImages markdown)))))
              (filterUnsupportedBlocks
                 (fst (ensureKeys (w_keys w) n
                    (w_convert w (rewrittenMarkdown (extractInlineImages markdown))))))
              ?tmap = Some (result, n2)"
    and body: "body = filterUnsupportedBlocks (fst (ensureKeys (w_keys w) n2 result))"
  note entries = token_map_entries[OF len]
  have toks: "map fst ?tmap = map token [0..<?N]"
    by (simp add: entries comp_def)
  have ne: "[] \<notin> set (map token [0..<?N])" by (auto simp: token_def)
  have ty: "list_all (\<lambda>kv. b_type (snd kv) \<noteq> ''block'') ?tmap"
    by (simp add: entries list_all_iff image_block_def)
  from rep have "replace_blocks (w_keys w) (map token [0..<?N]) ?tmap
      (filterUnsupportedBlocks
                 (fst (ensureKeys (w_keys w) n
                    (w_convert w (rewrittenMarkdown (extractInlineImages markdown))))))
      (snd (ensureKeys (w_keys w) n
                      (w_convert w (rewrittenMarkdown (extractInlineImages markdown))))) =
      Some (result, n2)"
    by (simp only: replaceTokensWithImageBlocksPreserveMarks_def toks)
  from replace_blocks_clean[OF ne ty this]
  have "list_all (text_clean (map token [0..<?N])) result" .
  then show ?thesis
    unfolding body by (intro filterUnsupportedBlocks_clean) (simp only: ensureKeys_clean)
qed

text \<open>A source whose one image has a caption that reads like a token.\<close>

definition md_caption :: string where
  "md_caption = ''![a](b.png '' @ [CHR 0x22] @ ''[[[SANITY_IMAGE_0]]]'' @ [CHR 0x22] @ '')''"

text \<open>
  Claim C3, amended. Whatever the converter returns: when the pipeline returns a body,
  no token made by the extraction occurs in the text of a span of a text block of
  that body.
\<close>

theorem no_token_in_span_text:
  assumes "markdownToPortableTextWithInlineImages w mdFilePath markdown us n = (Inr body, us', n', acts)"
      and "b \<in> set body" "b_type b = ''block''" "b_children b = Some cs"
      and "c \<in> set cs" "c_type c = ''span''" "c_text c = Some s"
      and "i < length (images (extractInlineImages markdown))"
  shows "\<not> includes_str s (token i)"
proof -
  let ?tokens = "map token [0..<length (images (extractInlineImages markdown))]"
  from pipeline_clean[OF assms(1)] assms(2) have "text_clean ?tokens b"
    by (simp add: list_all_iff)
  with assms(3,4) have "list_all (span_clean ?tokens) cs" by (simp add: text_clean_def)
  with assms(5,6) have "list_all (\<lambda>t. \<not> includes_str (span_text c) t) ?tokens"
    by (simp add: list_all_iff span_clean_def)
  with assms(8) have "\<not> includes_str (span_text c) (token i)" by (simp add: list_all_iff)
  with assms(7) show ?thesis by (simp add: span_text_def)
qed

theorem no_token_in_span_text_witness:
  "fst (markdownToPortableTextWithInlineImages dry_world ''post.md''
      ''Intro ![cat](cat.png) end'' init_state 0) =
     Inr [(plain_block ''Intro'')\<lparr>b_key := Some ''K0'',
             b_children := Some [(plain_span ''Intro'')\<lparr>c_key := Some ''K1''\<rparr>]\<rparr>,
          (image_block ''dry.asset.cat-png'' ''cat'' [])\<lparr>b_key := Some ''K6''\<rparr>,
          (plain_block ''end'')\<lparr>b_key := Some ''K4'',
             b_children := Some [(plain_span ''end'')\<lparr>c_key := Some ''K5''\<rparr>]\<rparr>] \<and>
   length (images (extractInlineImages ''Intro ![cat](cat.png) end'')) = 1 \<and>
   \<not> includes_str ''end'' (token 0)"
proof -
  let ?run = "markdownToPortableTextWithInlineImages dry_world ''post.md''
      ''Intro ![cat](cat.png) end'' init_state 0"
  let ?last = "(plain_block ''end'')\<lparr>b_key := Some ''K4'',
             b_children := Some [(plain_span ''end'')\<lparr>c_key := Some ''K5''\<rparr>]\<rparr>"
  let ?body = "[(plain_block ''Intro'')\<lparr>b_key := Some ''K0'',
             b_children := Some [(plain_span ''Intro'')\<lparr>c_key := Some ''K1''\<rparr>]\<rparr>,
          (image_block ''dry.asset.cat-png'' ''cat'' [])\<lparr>b_key := Some ''K6''\<rparr>, ?last]"
  have body: "fst ?run = Inr ?body" by code_simp
  then have run: "?run = (Inr ?body, fst (snd ?run), fst (snd (snd ?run)), snd (snd (snd ?run)))"
    by (metis prod.collapse)
  have n: "length (images (extractInlineImages ''Intro ![cat](cat.png) end'')) = 1" by code_simp
  have "\<not> includes_str ''end'' (token 0)"
  proof (rule no_token_in_span_text[OF run])
    show "?last \<in> set ?body" by simp
    show "b_type ?last = ''block''" by (simp add: plain_block_def)
    show "b_children ?last = Some [(plain_span ''end'')\<lparr>c_key := Some ''K5''\<rparr>]" by simp
    show "(plain_span ''end'')\<lparr>c_key := Some ''K5''\<rparr> \<in> set [(plain_span ''end'')\<lparr>c_key := Some ''K5''\<rparr>]"
      by simp
    show "c_type ((plain_span ''end'')\<lparr>c_key := Some ''K5''\<rparr>) = ''span''" by (simp add: plain_span_def)
    show "c_text ((plain_span ''end'')\<lparr>c_key := Some ''K5''\<rparr>) = Some ''end''" by (simp add: plain_span_def)
    show "0 < length (images (extractInlineImages ''Intro ![cat](cat.png) end''))" using n by simp
  qed
  with body n show ?thesis by (intro conjI)
qed

text \<open>
  Claim C3 as stated fails outside the text of the spans. The caption of an image is
  copied from the source into the image block, so a caption that reads like the token
  is in the final body: the one image of \<open>md_caption\<close> gets the token
  \<^verbatim>\<open>[[[SANITY_IMAGE_0]]]\<close>, the converter returns the token's paragraph, the paragraph
  is replaced by the image block, and the caption of that block is the token.
\<close>

theorem token_survives_in_caption:
  "map img_token (images (extractInlineImages md_caption)) = [''[[[SANITY_IMAGE_0]]]''] \<and>
   rewrittenMarkdown (extractInlineImages md_caption) =
     [CHR 0x0A, CHR 0x0A] @ ''[[[SANITY_IMAGE_0]]]'' @ [CHR 0x0A, CHR 0x0A] \<and>
   fst (markdownToPortableTextWithInlineImages
          (dry_world\<lparr>w_convert := (\<lambda>s. [plain_block (trim s)])\<rparr>) ''post.md'' md_caption init_state 0) =
     Inr [\<lparr>b_type = ''image'', b_key = Some ''K2'', b_style = None, b_markDefs = None,
           b_children = None, b_asset = Some ''dry.asset.b-png'', b_alt = Some ''a'',
           b_caption = Some ''[[[SANITY_IMAGE_0]]]'', b_other = []\<rparr>]"
  by code_simp

section \<open>The images in the order of their references\<close>

text \<open>
  What a sequence of blocks reads as: the letters of the text blocks, span by span, and
  every block of another type as it is, its key apart. In the result of the
  replacement the \<open>k\<close>-th image block is read as the \<open>k\<close>-th token of a list given.
  \<open>visible\<close> drops the white space.
\<close>

datatype item = Letter char | Other block

definition unkey :: "block \<Rightarrow> block" where
  "unkey b = b\<lparr>b_key := None\<rparr>"

definition block_items :: "block \<Rightarrow> item list" where
  "block_items b =
     (if b_type b = ''block''
      then map Letter (joined_text (case b_children b of None \<Rightarrow> [] | Some cs \<Rightarrow> cs))
      else [Other (unkey b)])"

fun reading :: "string list \<Rightarrow> block list \<Rightarrow> item list" where
  "reading ts [] = []"
| "reading ts (b # bs) =
     (if b_type b = ''image''
      then (case ts of [] \<Rightarrow> reading [] bs | t # ts' \<Rightarrow> map Letter t @ reading ts' bs)
      else block_items b @ reading ts bs)"

definition visible :: "item list \<Rightarrow> item list" where
  "visible xs = filter (\<lambda>x. case x of Letter c \<Rightarrow> \<not> is_space c | Other b \<Rightarrow> True) xs"

text \<open>The image blocks of a sequence, without their keys, and the image a token stands for.\<close>

definition images_of :: "block list \<Rightarrow> block list" where
  "images_of bs = map unkey (filter (\<lambda>b. b_type b = ''image'') bs)"

definition image_for :: "(string \<times> block) list \<Rightarrow> string \<Rightarrow> block" where
  "image_for tmap t = unkey (image_with_key tmap t [])"

text \<open>
  The tokens that stand in the converter's output, in the order of reading. A text is
  read from the left, the nearest token first; a paragraph that is a token and nothing
  else shows that token; any other paragraph shows the tokens of its spans.
\<close>

function scan_tokens :: "string list \<Rightarrow> string \<Rightarrow> string list" where
  "scan_tokens tokens s =
     (case nearest_token tokens s None of
        None \<Rightarrow> []
      | Some (idx, t) \<Rightarrow>
          if t = [] then [] else t # scan_tokens tokens (drop (idx + length t) s))"
  by pat_completeness auto
termination
  by (relation "measure (\<lambda>(tokens, s). length s)") (auto dest: nearest_token_shorter)

declare scan_tokens.simps [simp del]

definition span_tokens :: "string list \<Rightarrow> child \<Rightarrow> string list" where
  "span_tokens tokens c =
     (case c_text c of
        None \<Rightarrow> []
      | Some s \<Rightarrow> if c_type c \<noteq> ''span'' then [] else scan_tokens tokens s)"

definition inline_tokens :: "string list \<Rightarrow> block \<Rightarrow> string list" where
  "inline_tokens tokens b =
     concat (map (span_tokens tokens) (case b_children b of None \<Rightarrow> [] | Some cs \<Rightarrow> cs))"

definition block_tokens :: "string list \<Rightarrow> block \<Rightarrow> string list" where
  "block_tokens tokens b =
     (if b_type b \<noteq> ''block'' then []
      else case find (\<lambda>t. isTokenOnlyBlock b t) tokens of
             Some t \<Rightarrow> if t \<noteq> [] then [t] else inline_tokens tokens b
           | None \<Rightarrow> inline_tokens tokens b)"

definition tokens_found :: "string list \<Rightarrow> block list \<Rightarrow> string list" where
  "tokens_found tokens blocks = concat (map (block_tokens tokens) blocks)"

text \<open>
  The invariant of the split: the images put out so far are those of the tokens found
  so far, and what is put out, with the paragraph under construction, reads as the
  text gone through so far.
\<close>

definition split_reads ::
  "(string \<times> block) list \<Rightarrow> split_state \<Rightarrow> string list \<Rightarrow> item list \<Rightarrow> bool" where
  "split_reads tmap st ts xs \<longleftrightarrow>
     images_of (st_out st) = map (image_for tmap) ts \<and>
     visible (reading ts (st_out st) @ block_items (st_current st)) = visible xs \<and>
     b_type (st_current st) = ''block'' \<and> b_children (st_current st) \<noteq> None"

text \<open>Every token has an image block in the map.\<close>

definition maps_images :: "(string \<times> block) list \<Rightarrow> string list \<Rightarrow> bool" where
  "maps_images tmap tokens \<longleftrightarrow>
     list_all (\<lambda>t. case map_of tmap t of None \<Rightarrow> False | Some img \<Rightarrow> b_type img = ''image'') tokens"

text \<open>
  A source with two images, what a converter makes of its rewritten text (the second
  token left inside a paragraph), and the asset ids of the two uploads.
\<close>

definition md_two :: string where
  "md_two = ''A ![x](x.png) B ![y](y.png) C''"

definition blocks_two :: "block list" where
  "blocks_two = [plain_block ''A'', plain_block ''[[[SANITY_IMAGE_0]]]'',
                 plain_block ''B [[[SANITY_IMAGE_1]]] C'']"

definition ids_two :: "string list" where
  "ids_two = [''asset-x'', ''asset-y'']"

subsection \<open>Facts about reading\<close>

lemma visible_append: "visible (xs @ ys) = visible xs @ visible ys"
  by (simp add: visible_def)

lemma visible_letters: "visible (map Letter s) = map Letter (filter (\<lambda>c. \<not> is_space c) s)"
  by (simp add: visible_def filter_map comp_def)

lemma filter_dropWhile_not: "filter (\<lambda>c. \<not> P c) (dropWhile P xs) = filter (\<lambda>c. \<not> P c) xs"
  by (induction xs) simp_all

lemma nonspace_trim: "filter (\<lambda>c. \<not> is_space c) (trim s) = filter (\<lambda>c. \<not> is_space c) s"
proof -
  have "filter (\<lambda>c. \<not> is_space c) (trim s) =
        rev (filter (\<lambda>c. \<not> is_space c) (dropWhile is_space (rev (dropWhile is_space s))))"
    by (simp add: trim_def rev_filter)
  also have "\<dots> = rev (filter (\<lambda>c. \<not> is_space c) (rev (dropWhile is_space s)))"
    by (simp only: filter_dropWhile_not)
  also have "\<dots> = filter (\<lambda>c. \<not> is_space c) (dropWhile is_space s)"
    by (simp add: rev_filter)
  also have "\<dots> = filter (\<lambda>c. \<not> is_space c) s" by (rule filter_dropWhile_not)
  finally show ?thesis .
qed

lemma visible_trim: "visible (map Letter (trim s)) = visible (map Letter s)"
  by (simp only: visible_letters nonspace_trim)

lemma images_of_append: "images_of (xs @ ys) = images_of xs @ images_of ys"
  by (simp add: images_of_def)

lemma reading_append:
  "length (images_of out1) = length ts1 \<Longrightarrow>
   reading (ts1 @ ts2) (out1 @ out2) = reading ts1 out1 @ reading ts2 out2"
proof (induction out1 arbitrary: ts1)
  case Nil
  then show ?case by (simp add: images_of_def)
next
  case (Cons b out1)
  show ?case
  proof (cases "b_type b = ''image''")
    case False
    with Cons.prems have "length (images_of out1) = length ts1" by (simp add: images_of_def)
    from Cons.IH[OF this] False show ?thesis by simp
  next
    case True
    with Cons.prems obtain t ts' where ts1: "ts1 = t # ts'" and "length (images_of out1) = length ts'"
      by (cases ts1) (simp_all add: images_of_def)
    from Cons.IH[OF this(2)] True ts1 show ?thesis by simp
  qed
qed

lemma reading_no_image: "b_type b \<noteq> ''image'' \<Longrightarrow> reading ts [b] = block_items b"
  by simp

lemma blank_span:
  assumes "\<not> meaningful_child c"
  shows "c_type c = ''span'' \<and> filter (\<lambda>x. \<not> is_space x) (span_text c) = []"
proof -
  from assms have sp: "c_type c = ''span''" by (auto simp: meaningful_child_def split: if_splits)
  show ?thesis
  proof (cases "c_text c")
    case None
    with sp show ?thesis by (simp add: span_text_def)
  next
    case (Some s)
    with assms sp have "trim s = []" by (simp add: meaningful_child_def)
    then have "filter (\<lambda>x. \<not> is_space x) s = []" using nonspace_trim[of s] by simp
    with sp Some show ?thesis by (simp add: span_text_def)
  qed
qed

lemma blank_paragraph:
  assumes "\<not> hasMeaningfulChildren b" "b_type b = ''block''"
  shows "visible (block_items b) = []"
proof (cases "b_children b")
  case None
  with assms(2) show ?thesis by (simp add: block_items_def joined_text_def visible_def)
next
  case (Some cs)
  with assms(1) have "\<forall>c \<in> set cs. \<not> meaningful_child c"
    by (simp add: hasMeaningfulChildren_def list_ex_iff)
  then have "\<forall>c \<in> set cs. filter (\<lambda>x. \<not> is_space x) (span_text c) = []"
    by (blast dest: blank_span)
  then have "filter (\<lambda>x. \<not> is_space x) (joined_text cs) = []"
    by (induction cs) (simp_all add: joined_text_def)
  with Some assms(2) show ?thesis by (simp add: block_items_def visible_letters)
qed

subsection \<open>Facts about the tokens found\<close>

lemma scan_tokens_hit:
  "nearest_token tokens s None = Some (idx, t) \<Longrightarrow> t \<noteq> [] \<Longrightarrow>
   scan_tokens tokens s = t # scan_tokens tokens (drop (idx + length t) s)"
  by (subst scan_tokens.simps) simp

lemma scan_tokens_miss:
  "nearest_token tokens s None = None \<or> (\<exists>idx. nearest_token tokens s None = Some (idx, [])) \<Longrightarrow>
   scan_tokens tokens s = []"
  by (subst scan_tokens.simps) auto

lemma nearest_token_absent:
  "\<forall>t \<in> set ts. indexOf s t = None \<Longrightarrow> nearest_token ts s best = best"
  by (induction ts arbitrary: best) simp_all

lemma inline_tokens_absent:
  assumes "\<not> blockContainsAnyToken b tokens" "b_type b = ''block''"
  shows "inline_tokens tokens b = []"
proof (cases "b_children b")
  case None
  then show ?thesis by (simp add: inline_tokens_def)
next
  case (Some cs)
  let ?spans = "filter (\<lambda>c. c_type c = ''span'' \<and> c_text c \<noteq> None) cs"
  from assms Some have none:
    "\<forall>t \<in> set tokens. \<not> includes_str (concat (map span_text ?spans)) t"
    by (simp add: blockContainsAnyToken_def list_ex_iff)
  have "span_tokens tokens c = []" if c: "c \<in> set cs" for c
  proof (cases "c_text c")
    case None
    then show ?thesis by (simp add: span_tokens_def)
  next
    case s: (Some s)
    show ?thesis
    proof (cases "c_type c = ''span''")
      case False
      with s show ?thesis by (simp add: span_tokens_def)
    next
      case True
      with c s have "c \<in> set ?spans" by simp
      with none have "\<forall>t \<in> set tokens. \<not> includes_str (span_text c) t"
        by (blast dest: includes_str_concat)
      with s have "\<forall>t \<in> set tokens. indexOf s t = None"
        by (simp add: span_text_def includes_str_def)
      then have "nearest_token tokens s None = None" by (rule nearest_token_absent)
      then have "scan_tokens tokens s = []" by (intro scan_tokens_miss disjI1)
      with s True show ?thesis by (simp add: span_tokens_def)
    qed
  qed
  with Some show ?thesis by (simp add: inline_tokens_def)
qed
subsection \<open>The split puts the images out in the order of the tokens\<close>

lemma image_with_key_image:
  assumes "maps_images tmap tokens" "t \<in> set tokens"
  shows "b_type (image_with_key tmap t k) = ''image'' \<and> unkey (image_with_key tmap t k) = image_for tmap t"
proof -
  from assms obtain img where "map_of tmap t = Some img" "b_type img = ''image''"
    by (auto simp: maps_images_def list_all_iff split: option.splits)
  then show ?thesis by (simp add: image_with_key_def image_for_def unkey_def)
qed

lemma split_reads_length:
  "split_reads tmap st ts xs \<Longrightarrow> length (images_of (st_out st)) = length ts"
  by (simp add: split_reads_def)

lemma split_reads_flush:
  assumes "split_reads tmap st ts xs"
  shows "split_reads tmap (flushCurrent gen blk st) ts xs \<and>
         block_items (st_current (flushCurrent gen blk st)) = []"
proof -
  let ?cur = "st_current st"
  from assms have img: "images_of (st_out st) = map (image_for tmap) ts"
    and vis: "visible (reading ts (st_out st) @ block_items ?cur) = visible xs"
    and ty: "b_type ?cur = ''block''"
    by (simp_all add: split_reads_def)
  have new: "block_items (new_paragraph gen (st_next st) blk) = []"
    by (simp add: block_items_def new_paragraph_def joined_text_def)
  have newty: "b_type (new_paragraph gen (st_next st) blk) = ''block''"
    "b_children (new_paragraph gen (st_next st) blk) \<noteq> None"
    by (simp_all add: new_paragraph_def)
  show ?thesis
  proof (cases "hasMeaningfulChildren ?cur")
    case True
    have "reading (ts @ []) (st_out st @ [?cur]) = reading ts (st_out st) @ reading [] [?cur]"
      using split_reads_length[OF assms] by (rule reading_append)
    with ty have "reading ts (st_out st @ [?cur]) = reading ts (st_out st) @ block_items ?cur"
      by simp
    moreover from ty have "images_of (st_out st @ [?cur]) = images_of (st_out st)"
      by (simp add: images_of_def)
    ultimately show ?thesis using True img vis new newty
      by (simp add: split_reads_def flushCurrent_def)
  next
    case False
    from False ty have "visible (block_items ?cur) = []" by (rule blank_paragraph)
    with vis have "visible (reading ts (st_out st)) = visible xs" by (simp add: visible_append)
    with False img new newty show ?thesis
      by (simp add: split_reads_def flushCurrent_def)
  qed
qed

lemma split_reads_emit:
  assumes "split_reads tmap st ts xs" "block_items (st_current st) = []"
      and "maps_images tmap tokens" "t \<in> set tokens"
  shows "split_reads tmap (emit_image gen tmap t st) (ts @ [t]) (xs @ map Letter t)"
proof -
  let ?img = "image_with_key tmap t (gen (st_next st))"
  note im = image_with_key_image[OF assms(3,4), of "gen (st_next st)"]
  from assms(1) have img: "images_of (st_out st) = map (image_for tmap) ts"
    and vis: "visible (reading ts (st_out st) @ block_items (st_current st)) = visible xs"
    and ty: "b_type (st_current st) = ''block''" "b_children (st_current st) \<noteq> None"
    by (simp_all add: split_reads_def)
  have "reading (ts @ [t]) (st_out st @ [?img]) = reading ts (st_out st) @ reading [t] [?img]"
    using split_reads_length[OF assms(1)] by (rule reading_append)
  with im have r: "reading (ts @ [t]) (st_out st @ [?img]) = reading ts (st_out st) @ map Letter t"
    by simp
  from im img have i: "images_of (st_out st @ [?img]) = map (image_for tmap) (ts @ [t])"
    by (simp add: images_of_def)
  from vis assms(2) have "visible (reading ts (st_out st)) = visible xs" by simp
  with r i ty assms(2) show ?thesis
    by (simp add: split_reads_def emit_image_def visible_append)
qed

lemma block_items_push:
  assumes "b_type b = ''block''" "b_children b \<noteq> None"
  shows "block_items (push_child c b) =
           block_items b @ (if c_type c = ''span'' then map Letter (span_text c) else [])"
  using assms by (auto simp: block_items_def push_child_def joined_text_def)

lemma split_reads_push:
  assumes "split_reads tmap st ts xs"
      and "ys = (if c_type c = ''span'' then map Letter (span_text c) else [])"
  shows "split_reads tmap (st\<lparr>st_current := push_child c (st_current st), st_next := n\<rparr>) ts (xs @ ys)"
proof -
  from assms(1) have img: "images_of (st_out st) = map (image_for tmap) ts"
    and vis: "visible (reading ts (st_out st) @ block_items (st_current st)) = visible xs"
    and ty: "b_type (st_current st) = ''block''" "b_children (st_current st) \<noteq> None"
    by (simp_all add: split_reads_def)
  from ty have "block_items (push_child c (st_current st)) = block_items (st_current st) @ ys"
    unfolding assms(2) by (rule block_items_push)
  moreover from ty have "b_type (push_child c (st_current st)) = ''block''"
    "b_children (push_child c (st_current st)) \<noteq> None"
    by (auto simp: push_child_def)
  ultimately show ?thesis using img vis
    by (simp add: split_reads_def visible_append flip: append_assoc)
qed

lemma split_reads_push_span:
  assumes "split_reads tmap st ts xs" "c_type c = ''span''"
  shows "split_reads tmap (push_span gen c frag st) ts (xs @ map Letter frag)"
proof -
  let ?c = "c\<lparr>c_key := Some (gen (st_next st)), c_text := Some frag\<rparr>"
  have "map Letter frag = (if c_type ?c = ''span'' then map Letter (span_text ?c) else [])"
    using assms(2) by (simp add: span_text_def)
  from split_reads_push[OF assms(1) this, of "Suc (st_next st)"] show ?thesis
    by (simp add: push_span_def)
qed

lemma split_reads_push_if:
  assumes "split_reads tmap st ts xs" "c_type c = ''span''"
  shows "split_reads tmap (if length frag > 0 then push_span gen c frag st else st) ts
           (xs @ map Letter frag)"
  using assms split_reads_push_span[OF assms, of gen frag] by (cases frag) simp_all

lemma split_text_reads:
  "c_type c = ''span'' \<Longrightarrow> maps_images tmap tokens \<Longrightarrow> split_reads tmap st ts xs \<Longrightarrow>
   split_reads tmap (split_text gen blk tokens tmap c s st)
     (ts @ scan_tokens tokens s) (xs @ map Letter s)"
proof (induction gen blk tokens tmap c s st arbitrary: ts xs rule: split_text.induct)
  case (1 gen blk tokens tmap c s st)
  note sp = "1.prems"(1) and tm = "1.prems"(2) and inv = "1.prems"(3)
  have fin: "split_reads tmap (if length s > 0 then push_span gen c s st else st) ts
               (xs @ map Letter s)"
    using inv sp by (rule split_reads_push_if)
  show ?case
  proof (cases "nearest_token tokens s None")
    case None
    then have m: "nearest_token tokens s None = None \<or>
        (\<exists>idx. nearest_token tokens s None = Some (idx, []))" by (rule disjI1)
    from fin show ?thesis by (simp only: split_text_miss[OF m] scan_tokens_miss[OF m] append_Nil2)
  next
    case (Some p)
    obtain idx t where p: "p = (idx, t)" by (cases p)
    note hit = Some[unfolded p]
    show ?thesis
    proof (cases "t = []")
      case True
      with hit have m: "nearest_token tokens s None = None \<or>
          (\<exists>idx. nearest_token tokens s None = Some (idx, []))" by blast
      from fin show ?thesis by (simp only: split_text_miss[OF m] scan_tokens_miss[OF m] append_Nil2)
    next
      case False
      let ?before = "take idx s"
      let ?after = "drop (idx + length t) s"
      let ?st1 = "if length ?before > 0 then push_span gen c ?before st else st"
      let ?st2 = "flushCurrent gen blk ?st1"
      let ?st3 = "emit_image gen tmap t ?st2"
      from nearest_token_index[OF hit] have ix: "indexOf s t = Some idx" and mem: "t \<in> set tokens"
        by simp_all
      from indexOf_Some_decomp[OF ix] have s: "s = ?before @ t @ ?after" by simp
      have "split_reads tmap ?st1 ts (xs @ map Letter ?before)"
        using inv sp by (rule split_reads_push_if)
      from split_reads_flush[OF this, of gen blk]
      have "split_reads tmap ?st2 ts (xs @ map Letter ?before)"
        and "block_items (st_current ?st2) = []" by simp_all
      then have i3: "split_reads tmap ?st3 (ts @ [t]) ((xs @ map Letter ?before) @ map Letter t)"
        using tm mem by (rule split_reads_emit)
      have "split_reads tmap (split_text gen blk tokens tmap c ?after ?st3)
              ((ts @ [t]) @ scan_tokens tokens ?after)
              (((xs @ map Letter ?before) @ map Letter t) @ map Letter ?after)"
        by (rule "1.IH"[OF hit refl False refl refl refl refl refl sp tm i3])
      moreover have "map Letter s = map Letter ?before @ map Letter t @ map Letter ?after"
        using s by (metis map_append)
      then have "((xs @ map Letter ?before) @ map Letter t) @ map Letter ?after =
                     xs @ map Letter s"
        by simp
      moreover have "(ts @ [t]) @ scan_tokens tokens ?after = ts @ scan_tokens tokens s"
        by (simp add: scan_tokens_hit[OF hit False])
      ultimately show ?thesis by (simp only: split_text_hit[OF hit False])
    qed
  qed
qed

lemma split_children_reads:
  "maps_images tmap tokens \<Longrightarrow> split_reads tmap st ts xs \<Longrightarrow>
   split_reads tmap (split_children gen blk tokens tmap cs st)
     (ts @ concat (map (span_tokens tokens) cs)) (xs @ map Letter (joined_text cs))"
proof (induction cs arbitrary: st ts xs)
  case Nil
  then show ?case by (simp add: joined_text_def)
next
  case (Cons c cs)
  note tm = Cons.prems(1) and inv = Cons.prems(2)
  let ?ys = "if c_type c = ''span'' then map Letter (span_text c) else []"
  have j: "map Letter (joined_text (c # cs)) = ?ys @ map Letter (joined_text cs)"
    by (simp add: joined_text_def)
  show ?case
  proof (cases "c_text c = None \<or> c_type c \<noteq> ''span''")
    case True
    obtain c' n where k: "child_with_key gen (st_next st) c = (c', n)"
      by (cases "child_with_key gen (st_next st) c")
    then have same: "c_type c' = c_type c" "span_text c' = span_text c"
      by (auto simp: child_with_key_def span_text_def split: if_splits)
    let ?st1 = "st\<lparr>st_current := push_child c' (st_current st), st_next := n\<rparr>"
    have "?ys = (if c_type c' = ''span'' then map Letter (span_text c') else [])"
      by (simp add: same)
    with inv have "split_reads tmap ?st1 ts (xs @ ?ys)" by (rule split_reads_push)
    from Cons.IH[OF tm this]
    have "split_reads tmap (split_children gen blk tokens tmap cs ?st1)
            (ts @ concat (map (span_tokens tokens) cs)) (xs @ map Letter (joined_text (c # cs)))"
      by (simp add: j)
    moreover from True have "span_tokens tokens c = []"
      by (auto simp: span_tokens_def split: option.splits)
    moreover from True k have "split_children gen blk tokens tmap (c # cs) st =
        split_children gen blk tokens tmap cs ?st1"
      by (cases "c_text c") auto
    ultimately show ?thesis by simp
  next
    case False
    then obtain s where s: "c_text c = Some s" and sp: "c_type c = ''span''" by auto
    have "split_reads tmap (split_text gen blk tokens tmap c s st)
            (ts @ scan_tokens tokens s) (xs @ map Letter s)"
      using sp tm inv by (rule split_text_reads)
    from Cons.IH[OF tm this]
    have "split_reads tmap
            (split_children gen blk tokens tmap cs (split_text gen blk tokens tmap c s st))
            ((ts @ scan_tokens tokens s) @ concat (map (span_tokens tokens) cs))
            ((xs @ map Letter s) @ map Letter (joined_text cs))" .
    moreover from s sp have "span_tokens tokens c = scan_tokens tokens s"
      by (simp add: span_tokens_def)
    moreover from s sp have "?ys = map Letter s" by (simp add: span_text_def)
    ultimately show ?thesis using s sp by (simp add: j)
  qed
qed

lemma splitBlock_reads:
  assumes "splitBlockByTokensPreserveMarks gen n blk tokens tmap = Some (out, n')"
      and "maps_images tmap tokens" "b_type blk = ''block''"
  shows "images_of out = map (image_for tmap) (inline_tokens tokens blk) \<and>
         visible (reading (inline_tokens tokens blk) out) = visible (block_items blk)"
proof -
  from assms(1) obtain cs where cs: "b_children blk = Some cs"
    by (cases "b_children blk") (simp_all add: splitBlockByTokensPreserveMarks_def)
  let ?st0 = "\<lparr>st_out = [], st_current = new_paragraph gen n blk, st_next = Suc n\<rparr>"
  let ?st1 = "split_children gen blk tokens tmap cs ?st0"
  let ?st2 = "flushCurrent gen blk ?st1"
  have "split_reads tmap ?st0 [] []"
    by (simp add: split_reads_def images_of_def new_paragraph_def block_items_def joined_text_def
                  visible_def)
  with assms(2) have "split_reads tmap ?st1 ([] @ concat (map (span_tokens tokens) cs))
      ([] @ map Letter (joined_text cs))"
    by (rule split_children_reads)
  then have "split_reads tmap ?st1 (inline_tokens tokens blk) (block_items blk)"
    using cs assms(3) by (simp add: inline_tokens_def block_items_def)
  from split_reads_flush[OF this, of gen blk]
  have "split_reads tmap ?st2 (inline_tokens tokens blk) (block_items blk)"
    and "block_items (st_current ?st2) = []" by simp_all
  moreover from assms(1) cs have "out = st_out ?st2"
    by (simp add: splitBlockByTokensPreserveMarks_def Let_def)
  ultimately show ?thesis by (simp add: split_reads_def)
qed
subsection \<open>The loop over the blocks\<close>

lemma token_paragraph_items:
  assumes "isTokenOnlyBlock b t"
  shows "visible (block_items b) = visible (map Letter t)"
proof -
  from assms obtain cs where "b_children b = Some cs" "b_type b = ''block''"
    and "trim (joined_text cs) = t"
    by (auto simp: isTokenOnlyBlock_def split: option.splits)
  then show ?thesis using visible_trim[of "joined_text cs"] by (simp add: block_items_def)
qed

lemma replace_block_reads:
  assumes run: "replace_blocks gen tokens tmap [b] n = Some (out, n')"
      and tm: "maps_images tmap tokens" and ni: "b_type b \<noteq> ''image''"
  shows "images_of out = map (image_for tmap) (block_tokens tokens b) \<and>
         visible (reading (block_tokens tokens b) out) = visible (block_items b)"
  using replace_block_cases[OF run]
proof (elim disjE conjE bexE)
  assume "b_type b \<noteq> ''block''" and out: "out = [fst (block_with_key gen n b)]"
  moreover have "b_type (fst (block_with_key gen n b)) = b_type b"
    "unkey (fst (block_with_key gen n b)) = unkey b"
    by (simp_all add: block_with_key_def unkey_def)
  ultimately show ?thesis using ni
    by (simp add: block_tokens_def images_of_def block_items_def)
next
  fix t assume ty: "b_type b = ''block''" and t: "t \<in> set tokens" "t \<noteq> []" "isTokenOnlyBlock b t"
    and f: "find (\<lambda>t. isTokenOnlyBlock b t) tokens = Some t"
    and out: "out = [image_with_key tmap t (gen n)]"
  note im = image_with_key_image[OF tm t(1), of "gen n"]
  from ty f t(2) have bt: "block_tokens tokens b = [t]" by (simp add: block_tokens_def)
  from im out have "images_of out = [image_for tmap t]" by (simp add: images_of_def)
  moreover from im out have "reading [t] out = map Letter t" by simp
  ultimately show ?thesis using token_paragraph_items[OF t(3)] by (simp add: bt)
next
  assume ty: "b_type b = ''block''"
    and f: "\<forall>t. find (\<lambda>t. isTokenOnlyBlock b t) tokens = Some t \<longrightarrow> t = []"
    and sp: "splitBlockByTokensPreserveMarks gen n b tokens tmap = Some (out, n')"
  from ty f have "block_tokens tokens b = inline_tokens tokens b"
    by (auto simp: block_tokens_def split: option.splits)
  with splitBlock_reads[OF sp tm ty] show ?thesis by simp
next
  assume ty: "b_type b = ''block''" and nc: "\<not> blockContainsAnyToken b tokens"
    and f: "\<forall>t. find (\<lambda>t. isTokenOnlyBlock b t) tokens = Some t \<longrightarrow> t = []"
    and out: "out = [b]"
  from ty f have "block_tokens tokens b = inline_tokens tokens b"
    by (auto simp: block_tokens_def split: option.splits)
  with inline_tokens_absent[OF nc ty] have "block_tokens tokens b = []" by simp
  with out ty show ?thesis by (simp add: images_of_def)
qed

lemma replace_blocks_reads:
  assumes tm: "maps_images tmap tokens"
  shows "replace_blocks gen tokens tmap bs n = Some (out, n') \<Longrightarrow>
         list_all (\<lambda>b. b_type b \<noteq> ''image'') bs \<Longrightarrow>
         images_of out = map (image_for tmap) (tokens_found tokens bs) \<and>
         visible (reading (tokens_found tokens bs) out) = visible (concat (map block_items bs))"
proof (induction bs arbitrary: n out)
  case Nil
  then show ?case by (simp add: tokens_found_def images_of_def visible_def)
next
  case (Cons b bs)
  from Cons.prems(1) obtain out1 n1 out2 where
    h: "replace_blocks gen tokens tmap [b] n = Some (out1, n1)" and
    r: "replace_blocks gen tokens tmap bs n1 = Some (out2, n')" and
    out: "out = out1 @ out2"
    by (subst (asm) replace_blocks_Cons) (auto split: option.splits)
  from Cons.prems(2) have ni: "b_type b \<noteq> ''image''" and rest: "list_all (\<lambda>b. b_type b \<noteq> ''image'') bs"
    by simp_all
  from replace_block_reads[OF h tm ni]
  have i1: "images_of out1 = map (image_for tmap) (block_tokens tokens b)"
    and v1: "visible (reading (block_tokens tokens b) out1) = visible (block_items b)" by simp_all
  from Cons.IH[OF r rest]
  have i2: "images_of out2 = map (image_for tmap) (tokens_found tokens bs)"
    and v2: "visible (reading (tokens_found tokens bs) out2) = visible (concat (map block_items bs))"
    by simp_all
  have tf: "tokens_found tokens (b # bs) = block_tokens tokens b @ tokens_found tokens bs"
    by (simp add: tokens_found_def)
  from i1 have "length (images_of out1) = length (block_tokens tokens b)" by simp
  then have "reading (block_tokens tokens b @ tokens_found tokens bs) (out1 @ out2) =
             reading (block_tokens tokens b) out1 @ reading (tokens_found tokens bs) out2"
    by (rule reading_append)
  with v1 v2 have "visible (reading (tokens_found tokens (b # bs)) out) =
                   visible (concat (map block_items (b # bs)))"
    by (simp add: tf out visible_append)
  moreover from i1 i2 have "images_of out = map (image_for tmap) (tokens_found tokens (b # bs))"
    by (simp add: tf out images_of_append)
  ultimately show ?case by simp
qed

text \<open>The replacement returns: the children of a block that holds a token are an array.\<close>

lemma replace_blocks_returns: "\<exists>out n'. replace_blocks gen tokens tmap bs n = Some (out, n')"
proof (induction bs arbitrary: n)
  case Nil
  show ?case by simp
next
  case (Cons b bs)
  have sp: "\<exists>r. splitBlockByTokensPreserveMarks gen n b tokens tmap = Some r"
    if "blockContainsAnyToken b tokens"
  proof -
    from that obtain cs where "b_children b = Some cs"
      by (auto simp: blockContainsAnyToken_def split: option.splits)
    then show ?thesis by (simp add: splitBlockByTokensPreserveMarks_def Let_def)
  qed
  have "\<exists>out1 n1. replace_blocks gen tokens tmap [b] n = Some (out1, n1)"
  proof (cases "b_type b \<noteq> ''block''")
    case True
    then show ?thesis by (simp add: split_beta)
  next
    case False
    then show ?thesis using sp
      by (cases "find (\<lambda>t. isTokenOnlyBlock b t) tokens") (auto split: option.splits)
  qed
  then obtain out1 n1 where h: "replace_blocks gen tokens tmap [b] n = Some (out1, n1)" by blast
  from Cons.IH[of n1] obtain out2 n2 where "replace_blocks gen tokens tmap bs n1 = Some (out2, n2)"
    by blast
  with h show ?case by (subst replace_blocks_Cons) simp
qed

subsection \<open>The map of the pipeline\<close>

lemma token_map_images:
  assumes "length ids = length (images (extractInlineImages md))"
  shows "maps_images (build_token_map (zip (images (extractInlineImages md)) ids))
           (map token [0..<length (images (extractInlineImages md))])"
    and "i < length (images (extractInlineImages md)) \<Longrightarrow>
         image_for (build_token_map (zip (images (extractInlineImages md)) ids)) (token i) =
           image_block (ids ! i) (img_alt (images (extractInlineImages md) ! i))
                       (img_caption (images (extractInlineImages md) ! i))"
proof -
  let ?imgs = "images (extractInlineImages md)"
  let ?f = "\<lambda>i. image_block (ids ! i) (img_alt (?imgs ! i)) (img_caption (?imgs ! i))"
  let ?tmap = "build_token_map (zip ?imgs ids)"
  have entries: "?tmap = map (\<lambda>i. (token i, ?f i)) [0..<length ?imgs]"
    using assms by (rule token_map_entries)
  have d: "distinct (map fst ?tmap)"
    by (simp add: entries comp_def distinct_map_token)
  have look: "map_of ?tmap (token i) = Some (?f i)" if "i < length ?imgs" for i
  proof -
    from that have "(token i, ?f i) \<in> set ?tmap" by (simp add: entries)
    with d show ?thesis by simp
  qed
  show "maps_images ?tmap (map token [0..<length ?imgs])"
    by (simp add: maps_images_def list_all_iff look image_block_def)
  show "image_for ?tmap (token i) = ?f i" if "i < length ?imgs"
    using look[OF that] by (simp add: image_for_def image_with_key_def unkey_def image_block_def)
qed

text \<open>
  Claim C1, amended. Take a source with \<open>N\<close> image references, the map built from them
  and from the asset ids of their uploads, and an output of the converter that holds
  no image block of its own and in which the tokens found, in the order of reading, are
  the \<open>N\<close> tokens in their order. Then the replacement returns a sequence of blocks
  whose image blocks are exactly the \<open>N\<close> image blocks of the references, in the order
  of the references; and that sequence, the \<open>i\<close>-th image read as the \<open>i\<close>-th token,
  reads as the output of the converter does, white space apart: the images stand
  where the tokens stood, and the text and the other blocks are in their order.
\<close>

theorem images_in_reference_order:
  assumes "length ids = length (images (extractInlineImages markdown))"
      and "list_all (\<lambda>b. b_type b \<noteq> ''image'') blocks"
      and "tokens_found (map token [0..<length (images (extractInlineImages markdown))]) blocks =
             map token [0..<length (images (extractInlineImages markdown))]"
  shows "\<exists>out n'.
           replaceTokensWithImageBlocksPreserveMarks gen n blocks
             (build_token_map (zip (images (extractInlineImages markdown)) ids)) = Some (out, n') \<and>
           images_of out =
             map (\<lambda>i. image_block (ids ! i) (img_alt (images (extractInlineImages markdown) ! i))
                                   (img_caption (images (extractInlineImages markdown) ! i)))
               [0..<length (images (extractInlineImages markdown))] \<and>
           visible (reading (map token [0..<length (images (extractInlineImages markdown))]) out) =
             visible (concat (map block_items blocks))"
proof -
  let ?imgs = "images (extractInlineImages markdown)"
  let ?tokens = "map token [0..<length ?imgs]"
  let ?tmap = "build_token_map (zip ?imgs ids)"
  have toks: "map fst ?tmap = ?tokens"
    by (simp add: token_map_entries[OF assms(1)] comp_def)
  obtain out n' where run: "replace_blocks gen ?tokens ?tmap blocks n = Some (out, n')"
    using replace_blocks_returns by blast
  from replace_blocks_reads[OF token_map_images(1)[OF assms(1)] run assms(2)]
  have i: "images_of out = map (image_for ?tmap) (tokens_found ?tokens blocks)"
    and v: "visible (reading (tokens_found ?tokens blocks) out) = visible (concat (map block_items blocks))"
    by simp_all
  have "map (image_for ?tmap) ?tokens =
          map (\<lambda>i. image_block (ids ! i) (img_alt (?imgs ! i)) (img_caption (?imgs ! i)))
            [0..<length ?imgs]"
    by (simp add: token_map_images(2)[OF assms(1)])
  with i v have "images_of out =
          map (\<lambda>i. image_block (ids ! i) (img_alt (?imgs ! i)) (img_caption (?imgs ! i)))
            [0..<length ?imgs]"
    and "visible (reading ?tokens out) = visible (concat (map block_items blocks))"
    by (simp_all only: assms(3))
  moreover from run have "replaceTokensWithImageBlocksPreserveMarks gen n blocks ?tmap = Some (out, n')"
    by (simp only: replaceTokensWithImageBlocksPreserveMarks_def toks)
  ultimately show ?thesis by blast
qed

theorem images_in_reference_order_witness:
  "length ids_two = length (images (extractInlineImages md_two)) \<and>
   list_all (\<lambda>b. b_type b \<noteq> ''image'') blocks_two \<and>
   tokens_found (map token [0..<length (images (extractInlineImages md_two))]) blocks_two =
     map token [0..<length (images (extractInlineImages md_two))] \<and>
   length (images (extractInlineImages md_two)) = 2 \<and>
   (\<exists>out n'.
      replaceTokensWithImageBlocksPreserveMarks scenario_keys 0 blocks_two
        (build_token_map (zip (images (extractInlineImages md_two)) ids_two)) = Some (out, n') \<and>
      images_of out =
        map (\<lambda>i. image_block (ids_two ! i) (img_alt (images (extractInlineImages md_two) ! i))
                              (img_caption (images (extractInlineImages md_two) ! i)))
          [0..<length (images (extractInlineImages md_two))] \<and>
      visible (reading (map token [0..<length (images (extractInlineImages md_two))]) out) =
        visible (concat (map block_items blocks_two)))"
proof -
  have l: "length ids_two = length (images (extractInlineImages md_two))" by code_simp
  have n: "length (images (extractInlineImages md_two)) = 2" by code_simp
  have ni: "list_all (\<lambda>b. b_type b \<noteq> ''image'') blocks_two" by code_simp
  have tf: "tokens_found (map token [0..<length (images (extractInlineImages md_two))]) blocks_two =
     map token [0..<length (images (extractInlineImages md_two))]" by code_simp
  from images_in_reference_order[OF l ni tf, of scenario_keys 0] l ni tf n
  show ?thesis by (intro conjI)
qed

text \<open>
  Claim C1 as stated fails for a source that holds a token of its own: \<open>md_lookalike\<close>
  has one image reference, its rewritten text has the token's paragraph twice, and the
  replacement puts the image in the place of each: two image blocks for one reference.
\<close>

theorem lookalike_token_doubles_image:
  "length (images (extractInlineImages md_lookalike)) = 1 \<and>
   rewrittenMarkdown (extractInlineImages md_lookalike) =
     ''[[[SANITY_IMAGE_0]]] '' @ [CHR 0x0A, CHR 0x0A] @ ''[[[SANITY_IMAGE_0]]]'' @ [CHR 0x0A, CHR 0x0A] \<and>
   map_option (\<lambda>r. map b_type (fst r))
     (replaceTokensWithImageBlocksPreserveMarks scenario_keys 0
        [plain_block ''[[[SANITY_IMAGE_0]]]'', plain_block ''[[[SANITY_IMAGE_0]]]'']
        (build_token_map (zip (images (extractInlineImages md_lookalike)) [''asset-1'']))) =
     Some [''image'', ''image'']"
  by code_simp

section \<open>Running the importer again\<close>

text \<open>A child and a block without the keys, which are drawn at random in every run.\<close>

definition strip_child :: "child \<Rightarrow> child" where
  "strip_child c = c\<lparr>c_key := None\<rparr>"

definition strip_block :: "block \<Rightarrow> block" where
  "strip_block b = b\<lparr>b_key := None, b_children := map_option (map strip_child) (b_children b)\<rparr>"

text \<open>Two states of the split that differ in keys alone.\<close>

definition alike :: "split_state \<Rightarrow> split_state \<Rightarrow> bool" where
  "alike st st' \<longleftrightarrow>
     map strip_block (st_out st) = map strip_block (st_out st') \<and>
     strip_block (st_current st) = strip_block (st_current st')"

text \<open>The documents a list of actions sends to the backend.\<close>

fun upserted :: "action \<Rightarrow> document list" where
  "upserted (Upsert d) = [d]"
| "upserted a = []"

definition upserts :: "action list \<Rightarrow> document list" where
  "upserts acts = concat (map upserted acts)"

text \<open>
  \<open>same_document now now' d d'\<close>: the documents \<open>d\<close> and \<open>d'\<close> of two runs, begun at
  the times \<open>now\<close> and \<open>now'\<close>, have the same identifier and the same content but for
  the keys in the body and, where each run took the time of its start for it, for the
  publication date.
\<close>

definition same_document :: "string \<Rightarrow> string \<Rightarrow> document \<Rightarrow> document \<Rightarrow> bool" where
  "same_document now now' d d' \<longleftrightarrow>
     d_id d' = d_id d \<and> d_type d' = d_type d \<and> d_title d' = d_title d \<and>
     d_slug d' = d_slug d \<and> d_author d' = d_author d \<and>
     d_mainImage_ref d' = d_mainImage_ref d \<and> d_mainImage_alt d' = d_mainImage_alt d \<and>
     d_excerpt d' = d_excerpt d \<and> d_categories d' = d_categories d \<and>
     map strip_block (d_body d') = map strip_block (d_body d) \<and>
     (d_publishedAt d' = d_publishedAt d \<or>
      (d_publishedAt d = JStr now \<and> d_publishedAt d' = JStr now'))"

text \<open>
  A world that writes, and the world of a second run over the same files: other keys
  and a later time.
\<close>

definition write_world :: world where
  "write_world = dry_world\<lparr>w_env := (w_env dry_world)\<lparr>env_WRITE := True\<rparr>\<rparr>"

definition rerun_world :: world where
  "rerun_world = write_world\<lparr>w_keys := (\<lambda>n. ''R'' @ show_nat n),
                             w_now := ''2026-01-02T00:00:00.000Z''\<rparr>"

subsection \<open>What does not depend on the keys\<close>

lemma strip_child_fields [simp]:
  "c_type (strip_child c) = c_type c" "c_text (strip_child c) = c_text c"
  "c_marks (strip_child c) = c_marks c" "c_other (strip_child c) = c_other c"
  "span_text (strip_child c) = span_text c"
  by (simp_all add: strip_child_def span_text_def)

lemma strip_block_fields [simp]:
  "b_type (strip_block b) = b_type b" "b_style (strip_block b) = b_style b"
  "b_markDefs (strip_block b) = b_markDefs b"
  "b_children (strip_block b) = map_option (map strip_child) (b_children b)"
  by (simp_all add: strip_block_def)

lemma joined_text_strip: "joined_text (map strip_child cs) = joined_text cs"
  by (induction cs) (simp_all add: joined_text_def)

lemma isTokenOnlyBlock_strip: "isTokenOnlyBlock (strip_block b) t = isTokenOnlyBlock b t"
  by (cases "b_children b") (simp_all add: isTokenOnlyBlock_def joined_text_strip)

lemma spans_with_text_strip:
  "map span_text (filter (\<lambda>c. c_type c = ''span'' \<and> c_text c \<noteq> None) (map strip_child cs)) =
   map span_text (filter (\<lambda>c. c_type c = ''span'' \<and> c_text c \<noteq> None) cs)"
  by (induction cs) simp_all

lemma blockContainsAnyToken_strip:
  "blockContainsAnyToken (strip_block b) tokens = blockContainsAnyToken b tokens"
proof (cases "b_children b")
  case None
  then show ?thesis by (simp add: blockContainsAnyToken_def)
next
  case (Some cs)
  then show ?thesis using spans_with_text_strip[of cs] by (simp add: blockContainsAnyToken_def)
qed

lemma meaningful_child_strip: "meaningful_child (strip_child c) = meaningful_child c"
  by (simp add: meaningful_child_def)

lemma hasMeaningfulChildren_strip: "hasMeaningfulChildren (strip_block b) = hasMeaningfulChildren b"
  by (cases "b_children b")
     (simp_all add: hasMeaningfulChildren_def list_ex_iff meaningful_child_strip)

lemma alike_predicates:
  assumes "strip_block b = strip_block b'"
  shows "b_type b = b_type b'" "b_style b = b_style b'" "b_markDefs b = b_markDefs b'"
    "isTokenOnlyBlock b t = isTokenOnlyBlock b' t"
    "blockContainsAnyToken b tokens = blockContainsAnyToken b' tokens"
    "hasMeaningfulChildren b = hasMeaningfulChildren b'"
    "map_option (map strip_child) (b_children b) = map_option (map strip_child) (b_children b')"
proof -
  show "b_type b = b_type b'" using strip_block_fields(1)[of b] assms by simp
  show "b_style b = b_style b'" using strip_block_fields(2)[of b] assms by simp
  show "b_markDefs b = b_markDefs b'" using strip_block_fields(3)[of b] assms by simp
  show "isTokenOnlyBlock b t = isTokenOnlyBlock b' t"
    using isTokenOnlyBlock_strip[of b t] isTokenOnlyBlock_strip[of b' t] assms by simp
  show "blockContainsAnyToken b tokens = blockContainsAnyToken b' tokens"
    using blockContainsAnyToken_strip[of b tokens] blockContainsAnyToken_strip[of b' tokens] assms
    by simp
  show "hasMeaningfulChildren b = hasMeaningfulChildren b'"
    using hasMeaningfulChildren_strip[of b] hasMeaningfulChildren_strip[of b'] assms by simp
  show "map_option (map strip_child) (b_children b) = map_option (map strip_child) (b_children b')"
    using strip_block_fields(4)[of b] strip_block_fields(4)[of b'] assms by simp
qed

lemma strip_new_paragraph:
  assumes "strip_block blk = strip_block blk'"
  shows "strip_block (new_paragraph gen n blk) = strip_block (new_paragraph gen' n' blk')"
  using alike_predicates(2,3)[OF assms]
  by (simp add: strip_block_def new_paragraph_def style_or_normal_def markDefs_or_empty_def)

lemma strip_push_child:
  "strip_block (push_child c b) = push_child (strip_child c) (strip_block b)"
  by (cases "b_children b") (simp_all add: strip_block_def push_child_def)

lemma strip_child_with_key: "strip_child (fst (child_with_key gen n c)) = strip_child c"
  by (simp add: child_with_key_def strip_child_def)

lemma strip_block_with_key: "strip_block (fst (block_with_key gen n b)) = strip_block b"
  by (simp add: block_with_key_def strip_block_def)

lemma strip_image_with_key:
  "strip_block (image_with_key tmap t k) = strip_block (image_with_key tmap t k')"
  by (simp add: image_with_key_def strip_block_def split: option.splits)

lemma strip_fragment:
  assumes "strip_child c = strip_child c'"
  shows "strip_child (c\<lparr>c_key := k, c_text := Some frag\<rparr>) =
         strip_child (c'\<lparr>c_key := k', c_text := Some frag\<rparr>)"
proof -
  have "strip_child (c\<lparr>c_key := k, c_text := Some frag\<rparr>) = (strip_child c)\<lparr>c_text := Some frag\<rparr>"
    by (simp add: strip_child_def)
  moreover have "strip_child (c'\<lparr>c_key := k', c_text := Some frag\<rparr>) =
      (strip_child c')\<lparr>c_text := Some frag\<rparr>"
    by (simp add: strip_child_def)
  ultimately show ?thesis using assms by simp
qed

subsection \<open>The split in two runs\<close>

lemma alike_push:
  assumes "alike st st'" "strip_child c = strip_child c'"
  shows "alike (st\<lparr>st_current := push_child c (st_current st), st_next := n\<rparr>)
               (st'\<lparr>st_current := push_child c' (st_current st'), st_next := n'\<rparr>)"
  using assms by (simp add: alike_def strip_push_child)

lemma alike_push_span:
  assumes "alike st st'" "strip_child c = strip_child c'"
  shows "alike (push_span gen c frag st) (push_span gen' c' frag st')"
  unfolding push_span_def
  using assms(1) strip_fragment[OF assms(2)] by (rule alike_push)

lemma alike_push_if:
  assumes "alike st st'" "strip_child c = strip_child c'"
  shows "alike (if length frag > 0 then push_span gen c frag st else st)
               (if length frag > 0 then push_span gen' c' frag st' else st')"
  using assms alike_push_span[OF assms] by simp

lemma alike_flush:
  assumes "alike st st'" "strip_block blk = strip_block blk'"
  shows "alike (flushCurrent gen blk st) (flushCurrent gen' blk' st')"
proof -
  from assms(1) have cur: "strip_block (st_current st) = strip_block (st_current st')"
    and out: "map strip_block (st_out st) = map strip_block (st_out st')"
    by (simp_all add: alike_def)
  from alike_predicates(6)[OF cur] cur out strip_new_paragraph[OF assms(2)]
  show ?thesis by (simp add: alike_def flushCurrent_def)
qed

lemma alike_emit:
  assumes "alike st st'"
  shows "alike (emit_image gen tmap t st) (emit_image gen' tmap t st')"
  using assms strip_image_with_key[of tmap t "gen (st_next st)" "gen' (st_next st')"]
  by (simp add: alike_def emit_image_def)

lemma split_text_alike:
  "strip_child c = strip_child c' \<Longrightarrow> strip_block blk = strip_block blk' \<Longrightarrow> alike st st' \<Longrightarrow>
   alike (split_text gen blk tokens tmap c s st) (split_text gen' blk' tokens tmap c' s st')"
proof (induction gen blk tokens tmap c s st arbitrary: st' rule: split_text.induct)
  case (1 gen blk tokens tmap c s st)
  note c = "1.prems"(1) and blk = "1.prems"(2) and inv = "1.prems"(3)
  have fin: "alike (if length s > 0 then push_span gen c s st else st)
                   (if length s > 0 then push_span gen' c' s st' else st')"
    using inv c by (rule alike_push_if)
  show ?case
  proof (cases "nearest_token tokens s None")
    case None
    then have m: "nearest_token tokens s None = None \<or>
        (\<exists>idx. nearest_token tokens s None = Some (idx, []))" by (rule disjI1)
    from fin show ?thesis by (simp only: split_text_miss[OF m])
  next
    case (Some p)
    obtain idx t where p: "p = (idx, t)" by (cases p)
    note hit = Some[unfolded p]
    show ?thesis
    proof (cases "t = []")
      case True
      with hit have m: "nearest_token tokens s None = None \<or>
          (\<exists>idx. nearest_token tokens s None = Some (idx, []))" by blast
      from fin show ?thesis by (simp only: split_text_miss[OF m])
    next
      case False
      let ?before = "take idx s"
      let ?after = "drop (idx + length t) s"
      let ?st1 = "if length ?before > 0 then push_span gen c ?before st else st"
      let ?st1' = "if length ?before > 0 then push_span gen' c' ?before st' else st'"
      let ?st3 = "emit_image gen tmap t (flushCurrent gen blk ?st1)"
      let ?st3' = "emit_image gen' tmap t (flushCurrent gen' blk' ?st1')"
      have "alike ?st1 ?st1'" using inv c by (rule alike_push_if)
      then have "alike (flushCurrent gen blk ?st1) (flushCurrent gen' blk' ?st1')"
        using blk by (rule alike_flush)
      then have i3: "alike ?st3 ?st3'" by (rule alike_emit)
      have "alike (split_text gen blk tokens tmap c ?after ?st3)
                  (split_text gen' blk' tokens tmap c' ?after ?st3')"
        by (rule "1.IH"[OF hit refl False refl refl refl refl refl c blk i3])
      then show ?thesis by (simp only: split_text_hit[OF hit False])
    qed
  qed
qed

lemma split_children_alike:
  "map strip_child cs = map strip_child cs' \<Longrightarrow> strip_block blk = strip_block blk' \<Longrightarrow>
   alike st st' \<Longrightarrow>
   alike (split_children gen blk tokens tmap cs st) (split_children gen' blk' tokens tmap cs' st')"
proof (induction cs arbitrary: cs' st st')
  case Nil
  then show ?case by simp
next
  case (Cons c cs)
  from Cons.prems(1) obtain c' rest where cs': "cs' = c' # rest"
    and c: "strip_child c = strip_child c'" and rest: "map strip_child cs = map strip_child rest"
    by (cases cs') auto
  note blk = Cons.prems(2) and inv = Cons.prems(3)
  from c have ty: "c_type c = c_type c'" and tx: "c_text c = c_text c'"
    using strip_child_fields(1,2)[of c] strip_child_fields(1,2)[of c'] by simp_all
  show ?case
  proof (cases "c_text c = None \<or> c_type c \<noteq> ''span''")
    case True
    let ?k = "child_with_key gen (st_next st) c"
    let ?k' = "child_with_key gen' (st_next st') c'"
    let ?st1 = "st\<lparr>st_current := push_child (fst ?k) (st_current st), st_next := snd ?k\<rparr>"
    let ?st1' = "st'\<lparr>st_current := push_child (fst ?k') (st_current st'), st_next := snd ?k'\<rparr>"
    have "strip_child (fst ?k) = strip_child (fst ?k')"
      using c by (simp add: strip_child_with_key)
    with inv have "alike ?st1 ?st1'" by (rule alike_push)
    from Cons.IH[OF rest blk this]
    have "alike (split_children gen blk tokens tmap cs ?st1)
                (split_children gen' blk' tokens tmap rest ?st1')" .
    moreover from True have "split_children gen blk tokens tmap (c # cs) st =
        split_children gen blk tokens tmap cs ?st1"
      by (cases "c_text c") (auto simp: split_beta)
    moreover from True ty tx have "split_children gen' blk' tokens tmap (c' # rest) st' =
        split_children gen' blk' tokens tmap rest ?st1'"
      by (cases "c_text c'") (auto simp: split_beta)
    ultimately show ?thesis by (simp only: cs')
  next
    case False
    then obtain s where s: "c_text c = Some s" and sp: "c_type c = ''span''" by auto
    have "alike (split_text gen blk tokens tmap c s st) (split_text gen' blk' tokens tmap c' s st')"
      using c blk inv by (rule split_text_alike)
    from Cons.IH[OF rest blk this] s sp ty tx show ?thesis by (simp add: cs')
  qed
qed

lemma splitBlock_alike:
  assumes "strip_block blk = strip_block blk'"
  shows "map_option (\<lambda>r. map strip_block (fst r))
           (splitBlockByTokensPreserveMarks gen n blk tokens tmap) =
         map_option (\<lambda>r. map strip_block (fst r))
           (splitBlockByTokensPreserveMarks gen' n' blk' tokens tmap)"
proof (cases "b_children blk")
  case None
  with alike_predicates(7)[OF assms] have "b_children blk' = None" by simp
  with None show ?thesis by (simp add: splitBlockByTokensPreserveMarks_def)
next
  case (Some cs)
  with alike_predicates(7)[OF assms] obtain cs' where cs': "b_children blk' = Some cs'"
    and kids: "map strip_child cs = map strip_child cs'"
    by (cases "b_children blk'") auto
  let ?st0 = "\<lparr>st_out = [], st_current = new_paragraph gen n blk, st_next = Suc n\<rparr>"
  let ?st0' = "\<lparr>st_out = [], st_current = new_paragraph gen' n' blk', st_next = Suc n'\<rparr>"
  have "alike ?st0 ?st0'" using strip_new_paragraph[OF assms] by (simp add: alike_def)
  with kids assms have "alike (split_children gen blk tokens tmap cs ?st0)
      (split_children gen' blk' tokens tmap cs' ?st0')"
    by (rule split_children_alike)
  then have "alike (flushCurrent gen blk (split_children gen blk tokens tmap cs ?st0))
      (flushCurrent gen' blk' (split_children gen' blk' tokens tmap cs' ?st0'))"
    using assms by (rule alike_flush)
  with Some cs' show ?thesis
    by (simp add: splitBlockByTokensPreserveMarks_def Let_def alike_def)
qed
subsection \<open>The replacement and the keys in two runs\<close>

lemma replace_block_stripped:
  "map_option (\<lambda>r. map strip_block (fst r)) (replace_blocks gen tokens tmap [b] n) =
     (if b_type b \<noteq> ''block'' then Some [strip_block b]
      else if (case find (\<lambda>t. isTokenOnlyBlock b t) tokens of None \<Rightarrow> False | Some t \<Rightarrow> t \<noteq> [])
      then Some [strip_block (image_with_key tmap (the (find (\<lambda>t. isTokenOnlyBlock b t) tokens)) [])]
      else if blockContainsAnyToken b tokens
      then map_option (\<lambda>r. map strip_block (fst r))
             (splitBlockByTokensPreserveMarks gen n b tokens tmap)
      else Some [strip_block b])"
proof (cases "b_type b \<noteq> ''block''")
  case True
  then show ?thesis by (simp add: split_beta strip_block_with_key)
next
  case False
  have img: "strip_block (image_with_key tmap t (gen n)) = strip_block (image_with_key tmap t [])" for t
    by (rule strip_image_with_key)
  from False show ?thesis
    by (cases "find (\<lambda>t. isTokenOnlyBlock b t) tokens";
        cases "splitBlockByTokensPreserveMarks gen n b tokens tmap")
       (auto simp: img)
qed

lemma replace_block_alike:
  assumes "strip_block b = strip_block b'"
  shows "map_option (\<lambda>r. map strip_block (fst r)) (replace_blocks gen tokens tmap [b] n) =
         map_option (\<lambda>r. map strip_block (fst r)) (replace_blocks gen' tokens tmap [b'] n')"
proof -
  have "(\<lambda>t. isTokenOnlyBlock b t) = (\<lambda>t. isTokenOnlyBlock b' t)"
    using alike_predicates(4)[OF assms] by (intro ext)
  then have f: "find (\<lambda>t. isTokenOnlyBlock b t) tokens = find (\<lambda>t. isTokenOnlyBlock b' t) tokens"
    by simp
  show ?thesis
    unfolding replace_block_stripped f
    using alike_predicates(1,5)[OF assms] assms splitBlock_alike[OF assms, of gen n tokens tmap gen' n']
    by simp
qed

lemma replace_blocks_alike:
  "map strip_block bs = map strip_block bs' \<Longrightarrow>
   map_option (\<lambda>r. map strip_block (fst r)) (replace_blocks gen tokens tmap bs n) =
   map_option (\<lambda>r. map strip_block (fst r)) (replace_blocks gen' tokens tmap bs' n')"
proof (induction bs arbitrary: bs' n n')
  case Nil
  then show ?case by simp
next
  case (Cons b bs)
  from Cons.prems obtain b' rest where bs': "bs' = b' # rest"
    and b: "strip_block b = strip_block b'" and rest: "map strip_block bs = map strip_block rest"
    by (cases bs') auto
  note head = replace_block_alike[OF b, of gen tokens tmap n gen' n']
  show ?case
  proof (cases "replace_blocks gen tokens tmap [b] n")
    case None
    with head have "replace_blocks gen' tokens tmap [b'] n' = None" by simp
    with None show ?thesis
      unfolding bs' by (subst replace_blocks_Cons, subst (2) replace_blocks_Cons) simp
  next
    case (Some r)
    obtain out1 n1 where r: "r = (out1, n1)" by (cases r)
    from head Some r obtain out1' n1' where
      h': "replace_blocks gen' tokens tmap [b'] n' = Some (out1', n1')"
      and o1: "map strip_block out1 = map strip_block out1'"
      by (cases "replace_blocks gen' tokens tmap [b'] n'") auto
    note tail = Cons.IH[OF rest, of n1 n1']
    show ?thesis
    proof (cases "replace_blocks gen tokens tmap bs n1")
      case None
      with tail have "replace_blocks gen' tokens tmap rest n1' = None" by simp
      with None Some r h' show ?thesis
        unfolding bs' by (subst replace_blocks_Cons, subst (2) replace_blocks_Cons) simp
    next
      case s2: (Some r2)
      obtain out2 n2 where r2: "r2 = (out2, n2)" by (cases r2)
      from tail s2 r2 obtain out2' n2' where
        t': "replace_blocks gen' tokens tmap rest n1' = Some (out2', n2')"
        and o2: "map strip_block out2 = map strip_block out2'"
        by (cases "replace_blocks gen' tokens tmap rest n1'") auto
      from Some r s2 r2 h' t' o1 o2 show ?thesis
        unfolding bs' by (subst replace_blocks_Cons, subst (2) replace_blocks_Cons) simp
    qed
  qed
qed

lemma children_with_keys_strip:
  "map strip_child (fst (children_with_keys gen n cs)) = map strip_child cs"
proof (induction cs arbitrary: n)
  case Nil
  show ?case by simp
next
  case (Cons c cs)
  show ?case
    using Cons.IH[of "snd (child_with_key gen n c)"] strip_child_with_key[of gen n c]
    by (simp add: split_beta)
qed

lemma ensureKeys_strip: "map strip_block (fst (ensureKeys gen n bs)) = map strip_block bs"
proof (induction bs arbitrary: n)
  case Nil
  show ?case by simp
next
  case (Cons b bs)
  let ?bk = "block_with_key gen n b"
  let ?b1 = "case b_children (fst ?bk) of
               None \<Rightarrow> (fst ?bk, snd ?bk)
             | Some cs \<Rightarrow> (let (cs1, n') = children_with_keys gen (snd ?bk) cs
                           in ((fst ?bk)\<lparr>b_children := Some cs1\<rparr>, n'))"
  have "strip_block (fst ?b1) = strip_block (fst ?bk)"
  proof (cases "b_children (fst ?bk)")
    case None
    then show ?thesis by simp
  next
    case (Some cs)
    then show ?thesis
      using children_with_keys_strip[of gen "snd ?bk" cs]
      by (simp add: split_beta strip_block_def)
  qed
  then have "strip_block (fst ?b1) = strip_block b" by (simp only: strip_block_with_key)
  moreover have "ensureKeys gen n (b # bs) = (fst ?b1 # fst (ensureKeys gen (snd ?b1) bs),
      snd (ensureKeys gen (snd ?b1) bs))"
    by (simp add: split_beta Let_def)
  ultimately show ?case using Cons.IH[of "snd ?b1"] by simp
qed

lemma filterUnsupportedBlocks_strip:
  "map strip_block (filterUnsupportedBlocks bs) = filterUnsupportedBlocks (map strip_block bs)"
  by (simp add: filterUnsupportedBlocks_def filter_map comp_def)

lemma keyed_and_filtered:
  "map strip_block (filterUnsupportedBlocks (fst (ensureKeys gen n bs))) =
   filterUnsupportedBlocks (map strip_block bs)"
  by (simp only: filterUnsupportedBlocks_strip ensureKeys_strip)

subsection \<open>The uploads in two runs\<close>

lemma upload_all_same:
  assumes "w_env w' = w_env w" "w_assetsUpload w' = w_assetsUpload w"
  shows "upload_all w' s ps = upload_all w s ps"
proof -
  have "settle w' = settle w"
    using assms by (intro ext) (simp add: settle_def)
  moreover have "cleanup w' = cleanup w"
    using assms by (intro ext) (simp add: cleanup_def)
  ultimately show ?thesis using assms by (simp add: upload_all_def)
qed

lemma uploadImageAsset_same:
  assumes "w_env w' = w_env w" "w_assetsUpload w' = w_assetsUpload w"
  shows "uploadImageAsset w' s p = uploadImageAsset w s p"
  by (simp add: uploadImageAsset_def upload_all_same[OF assms])

lemma resolvePath_same:
  assumes "w_isAbsolute w' = w_isAbsolute w" "w_resolve w' = w_resolve w"
  shows "resolvePath w' f p = resolvePath w f p"
  using assms by (simp add: resolvePath_def)

lemma resolve_images_same:
  assumes "w_isAbsolute w' = w_isAbsolute w" "w_resolve w' = w_resolve w"
      and "w_existsSync w' = w_existsSync w"
  shows "resolve_images w' f imgs = resolve_images w f imgs"
  by (induction imgs) (simp_all add: resolvePath_same[OF assms(1,2)] assms(3) split: option.splits)

text \<open>
  The body of a post in two runs that differ in the keys drawn: the same error or the
  same blocks but for the keys, and the same uploads.
\<close>

lemma pipeline_alike:
  assumes env: "w_env w' = w_env w" and up: "w_assetsUpload w' = w_assetsUpload w"
      and ab: "w_isAbsolute w' = w_isAbsolute w" and re: "w_resolve w' = w_resolve w"
      and ex: "w_existsSync w' = w_existsSync w" and cv: "w_convert w' = w_convert w"
  shows "map_sum id (map strip_block)
           (fst (markdownToPortableTextWithInlineImages w' mdFilePath markdown us n')) =
         map_sum id (map strip_block)
           (fst (markdownToPortableTextWithInlineImages w mdFilePath markdown us n)) \<and>
         fst (snd (markdownToPortableTextWithInlineImages w' mdFilePath markdown us n')) =
         fst (snd (markdownToPortableTextWithInlineImages w mdFilePath markdown us n)) \<and>
         snd (snd (snd (markdownToPortableTextWithInlineImages w' mdFilePath markdown us n'))) =
         snd (snd (snd (markdownToPortableTextWithInlineImages w mdFilePath markdown us n)))"
proof -
  let ?ex = "extractInlineImages markdown"
  let ?conv = "w_convert w (rewrittenMarkdown ?ex)"
  let ?k = "ensureKeys (w_keys w) n ?conv"
  let ?k' = "ensureKeys (w_keys w') n' ?conv"
  let ?pt = "filterUnsupportedBlocks (fst ?k)"
  let ?pt' = "filterUnsupportedBlocks (fst ?k')"
  have pt: "map strip_block ?pt' = map strip_block ?pt"
    by (simp only: keyed_and_filtered)
  show ?thesis
  proof (cases "length (images ?ex) = 0")
    case True
    with pt show ?thesis
      by (simp add: markdownToPortableTextWithInlineImages_def Let_def split_beta cv)
  next
    case some: False
    note ri = resolve_images_same[OF ab re ex, of mdFilePath "images ?ex"]
    show ?thesis
    proof (cases "resolve_images w mdFilePath (images ?ex)")
      case (Inl e)
      with some ri show ?thesis
        by (simp add: markdownToPortableTextWithInlineImages_def Let_def split_beta cv)
    next
      case (Inr paths)
      note ua = upload_all_same[OF env up, of us paths]
      show ?thesis
      proof (cases "all_results (fst (upload_all w us paths))")
        case (Inl e)
        with some ri Inr ua show ?thesis
          by (simp add: markdownToPortableTextWithInlineImages_def Let_def split_beta cv)
      next
        case ids: (Inr ids)
        let ?tmap = "build_token_map (zip (images ?ex) ids)"
        let ?r = "replaceTokensWithImageBlocksPreserveMarks (w_keys w) (snd ?k) ?pt ?tmap"
        let ?r' = "replaceTokensWithImageBlocksPreserveMarks (w_keys w') (snd ?k') ?pt' ?tmap"
        have rr: "map_option (\<lambda>r. map strip_block (fst r)) ?r' =
                  map_option (\<lambda>r. map strip_block (fst r)) ?r"
          unfolding replaceTokensWithImageBlocksPreserveMarks_def
          using pt by (rule replace_blocks_alike)
        show ?thesis
        proof (cases ?r)
          case None
          with rr have "?r' = None" by simp
          with None some ri Inr ua ids show ?thesis
            by (simp add: markdownToPortableTextWithInlineImages_def Let_def split_beta cv)
        next
          case (Some res)
          with rr obtain res' where r': "?r' = Some res'"
            and eq: "map strip_block (fst res') = map strip_block (fst res)"
            by (cases ?r') auto
          have "map strip_block (filterUnsupportedBlocks
                   (fst (ensureKeys (w_keys w') (snd res') (fst res')))) =
                map strip_block (filterUnsupportedBlocks
                   (fst (ensureKeys (w_keys w) (snd res) (fst res))))"
            by (simp only: keyed_and_filtered eq)
          with Some r' some ri Inr ua ids show ?thesis
            by (simp add: markdownToPortableTextWithInlineImages_def Let_def split_beta cv)
        qed
      qed
    qed
  qed
qed
subsection \<open>The documents of two runs\<close>

lemma upserts_append: "upserts (xs @ ys) = upserts xs @ upserts ys"
  by (simp add: upserts_def)

lemma upserts_none: "\<forall>a \<in> set acts. upserted a = [] \<Longrightarrow> upserts acts = []"
  by (simp add: upserts_def)

lemma upserts_asset_actions: "upserts (asset_actions s s') = []"
  by (rule upserts_none) (auto simp: asset_actions_def)

lemma upserts_retry_other:
  "upserted request = [] \<Longrightarrow> upserts (retry_actions ctxt request run) = []"
  by (rule upserts_none) (auto dest!: retry_actions_members)

lemma upserts_retry_subset: "set (upserts (retry_actions ctxt (Upsert d) run)) \<subseteq> {d}"
proof
  fix x assume "x \<in> set (upserts (retry_actions ctxt (Upsert d) run))"
  then obtain a where "a \<in> set (retry_actions ctxt (Upsert d) run)" "x \<in> set (upserted a)"
    by (auto simp: upserts_def)
  then show "x \<in> {d}" by (auto dest!: retry_actions_members)
qed

lemma withRetry_calls_once: "1 \<le> rr_calls (withRetry fn 3 baseDelay)"
  unfolding withRetry_def by (rule withRetry_loop_calls_ge) simp

lemma upserts_retry_some:
  "upserts (retry_actions ctxt (Upsert d) (withRetry fn 3 baseDelay)) \<noteq> []"
proof -
  let ?run = "withRetry fn 3 baseDelay"
  from withRetry_calls_once[of fn baseDelay] have "1 \<in> set [1..<Suc (rr_calls ?run)]" by auto
  then have "Upsert d \<in> set (retry_actions ctxt (Upsert d) ?run)"
    unfolding retry_actions_def by (auto intro!: bexI[where x = 1])
  then have "d \<in> set (upserts (retry_actions ctxt (Upsert d) ?run))"
    by (force simp: upserts_def)
  then show ?thesis by auto
qed

lemma upserts_print: "upserts [] = []" "upserts [Print l] = []"
  by (simp_all add: upserts_def)

lemma upserts_create_missing_author:
  "upserts acts = [] \<Longrightarrow> upserts (snd (create_missing_author w author acts)) = []"
  by (simp add: create_missing_author_def Let_def upserts_append upserts_retry_other upserts_print
           split: sum.splits retry_result.splits)

lemma upserts_ensureAuthor: "upserts (snd (ensureAuthor w authorId author)) = []"
proof (cases "truthy authorId")
  case True
  then show ?thesis
    by (simp add: ensureAuthor_def Let_def upserts_retry_other split: retry_result.splits)
next
  case no_id: False
  show ?thesis
  proof (cases "truthy author")
    case False
    with no_id show ?thesis by (simp add: ensureAuthor_def upserts_print)
  next
    case True
    let ?run = "withRetry (w_fetchByName w (js_string author)) 3 1000"
    let ?acts = "retry_actions (''fetch author by name '' @ [CHR 0x22] @ js_string author @ [CHR 0x22])
                      (FetchAuthorByName (js_string author)) ?run"
    have a: "upserts ?acts = []" by (simp add: upserts_retry_other)
    then have "upserts (snd (create_missing_author w author ?acts)) = []"
      by (rule upserts_create_missing_author)
    with no_id True a show ?thesis
      by (simp add: ensureAuthor_def Let_def split: retry_result.splits)
  qed
qed

lemma import_document_rerun:
  assumes env: "w_env w' = w_env w" and up: "w_assetsUpload w' = w_assetsUpload w"
      and ab: "w_isAbsolute w' = w_isAbsolute w" and re: "w_resolve w' = w_resolve w"
      and ex: "w_existsSync w' = w_existsSync w" and cv: "w_convert w' = w_convert w"
      and dr: "w_DRAFT w' = w_DRAFT w"
      and us: "rs_uploads rs' = rs_uploads rs" and sl: "rs_slugToFile rs' = rs_slugToFile rs"
      and pub: "p' = p \<or> (p = JStr now \<and> p' = JStr now')"
      and run: "import_document w mdFilePath fm content slug p excerpt categories authorRef rs =
                  (res, rs1, acts)"
      and run': "import_document w' mdFilePath fm content slug p' excerpt categories authorRef rs' =
                  (res', rs1', acts')"
  shows "(upserts acts = [] \<longleftrightarrow> upserts acts' = []) \<and>
         (\<forall>d \<in> set (upserts acts). \<forall>d' \<in> set (upserts acts'). same_document now now' d d') \<and>
         rs_uploads rs1' = rs_uploads rs1 \<and> rs_slugToFile rs1' = rs_slugToFile rs1"
proof -
  let ?cover = "case fm_mainImage fm of
              JStr p \<Rightarrow> Inr (resolvePath w mdFilePath p)
            | _ \<Rightarrow> Inl (Err ''TypeError: the path argument must be of type string'')"
  note rp' = resolvePath_same[OF ab re]
  note ui = uploadImageAsset_same[OF env up]
  have rp: "(case fm_mainImage fm of
              JStr p \<Rightarrow> Inr (resolvePath w' mdFilePath p)
            | _ \<Rightarrow> Inl (Err ''TypeError: the path argument must be of type string'')) = ?cover"
    by (cases "fm_mainImage fm") (simp_all add: rp')
  show ?thesis
  proof (cases ?cover)
    case (Inl e)
    with run have "acts = []" "rs1 = rs" by (simp_all add: import_document_def)
    moreover from Inl run' have "acts' = []" "rs1' = rs'"
      by (simp_all add: import_document_def rp)
    ultimately show ?thesis using us sl by (simp add: upserts_print)
  next
    case (Inr absCover)
    show ?thesis
    proof (cases "absCover = None \<or> \<not> w_existsSync w (the absCover)")
      case True
      with Inr run have "acts = []" "rs1 = rs" by (auto simp: import_document_def)
      moreover from True Inr run' have "acts' = []" "rs1' = rs'"
        by (auto simp: import_document_def rp ex)
      ultimately show ?thesis using us sl by (simp add: upserts_print)
    next
      case False
      then obtain y where y: "absCover = Some y" and found: "w_existsSync w y" by auto
      note Inr = Inr[unfolded y]
      let ?up = "uploadImageAsset w (rs_uploads rs) y"
      let ?acts1 = "asset_actions (rs_uploads rs) (snd ?up)"
      show ?thesis
      proof (cases "fst ?up")
        case (Inl e)
        with Inr found run have "acts = ?acts1" "rs1 = rs\<lparr>rs_uploads := snd ?up\<rparr>"
          by (auto simp: import_document_def Let_def split_beta)
        moreover from Inl Inr found run' have "acts' = ?acts1" "rs1' = rs'\<lparr>rs_uploads := snd ?up\<rparr>"
          by (auto simp: import_document_def Let_def split_beta rp ex ui us)
        ultimately show ?thesis using sl by (simp add: upserts_asset_actions)
      next
        case cov: (Inr coverId)
        let ?pl = "markdownToPortableTextWithInlineImages w mdFilePath content (snd ?up) (rs_nextKey rs)"
        let ?pl' = "markdownToPortableTextWithInlineImages w' mdFilePath content (snd ?up) (rs_nextKey rs')"
        let ?acts2 = "snd (snd (snd ?pl))"
        from pipeline_alike[OF env up ab re ex cv, of mdFilePath content "snd ?up" "rs_nextKey rs'" "rs_nextKey rs"]
        have body: "map_sum id (map strip_block) (fst ?pl') = map_sum id (map strip_block) (fst ?pl)"
          and st: "fst (snd ?pl') = fst (snd ?pl)" and ac: "snd (snd (snd ?pl')) = ?acts2"
          by simp_all
        have a12: "upserts (?acts1 @ ?acts2) = []"
        proof -
          have "\<exists>s'. ?acts2 = [] \<or> ?acts2 = asset_actions (snd ?up) s'"
            by (auto simp: markdownToPortableTextWithInlineImages_def Let_def split_beta
                     split: sum.splits option.splits)
          then have "upserts ?acts2 = []" by (auto simp: upserts_asset_actions upserts_print)
          then show ?thesis by (simp add: upserts_append upserts_asset_actions)
        qed
        show ?thesis
        proof (cases "fst ?pl")
          case (Inl e)
          with body have b': "fst ?pl' = Inl e" by (cases "fst ?pl'") simp_all
          from Inl Inr found cov run have "acts = ?acts1 @ ?acts2"
            "rs_uploads rs1 = fst (snd ?pl)" "rs_slugToFile rs1 = rs_slugToFile rs"
            by (auto simp: import_document_def Let_def split_beta)
          moreover from b' Inr found cov run' have "acts' = ?acts1 @ ?acts2"
            "rs_uploads rs1' = fst (snd ?pl)" "rs_slugToFile rs1' = rs_slugToFile rs'"
            by (auto simp: import_document_def Let_def split_beta rp ex ui us st ac)
          ultimately show ?thesis using sl a12 by simp
        next
          case blocks: (Inr blocks)
          with body obtain blocks' where b': "fst ?pl' = Inr blocks'"
            and eq: "map strip_block blocks' = map strip_block blocks"
            by (cases "fst ?pl'") simp_all
          let ?doc = "\<lparr>d_id = makeDocumentId (w_DRAFT w) ''post'' (js_string slug), d_type = ''post'',
                       d_title = fm_title fm, d_slug = slug, d_author = authorRef,
                       d_mainImage_ref = coverId,
                       d_mainImage_alt = js_string (fm_mainImageAlt fm),
                       d_publishedAt = p, d_excerpt = excerpt,
                       d_body = blocks, d_categories = categories\<rparr>"
          let ?doc' = "\<lparr>d_id = makeDocumentId (w_DRAFT w) ''post'' (js_string slug), d_type = ''post'',
                       d_title = fm_title fm, d_slug = slug, d_author = authorRef,
                       d_mainImage_ref = coverId,
                       d_mainImage_alt = js_string (fm_mainImageAlt fm),
                       d_publishedAt = p', d_excerpt = excerpt,
                       d_body = blocks', d_categories = categories\<rparr>"
          have same: "same_document now now' ?doc ?doc'"
            using pub eq by (simp add: same_document_def)
          show ?thesis
          proof (cases "env_WRITE (w_env w)")
            case False
            with blocks Inr found cov run have
              "acts = ?acts1 @ ?acts2 @
                 [Print (''  [dry] would upsert: '' @ makeDocumentId (w_DRAFT w) ''post'' (js_string slug))]"
              "rs_uploads rs1 = fst (snd ?pl)" "rs_slugToFile rs1 = rs_slugToFile rs"
              by (auto simp: import_document_def Let_def split_beta)
            moreover from False b' Inr found cov run' have
              "acts' = ?acts1 @ ?acts2 @
                 [Print (''  [dry] would upsert: '' @ makeDocumentId (w_DRAFT w) ''post'' (js_string slug))]"
              "rs_uploads rs1' = fst (snd ?pl)" "rs_slugToFile rs1' = rs_slugToFile rs'"
              by (auto simp: import_document_def Let_def split_beta rp ex ui us st ac env dr)
            ultimately show ?thesis using sl a12 by (simp add: upserts_append upserts_print)
          next
            case True
            let ?a3 = "retry_actions (''upsert post '' @ [CHR 0x22] @ js_string slug @ [CHR 0x22])
                         (Upsert ?doc) (withRetry (w_createOrReplace w ?doc) 3 1000)"
            let ?a3' = "retry_actions (''upsert post '' @ [CHR 0x22] @ js_string slug @ [CHR 0x22])
                         (Upsert ?doc') (withRetry (w_createOrReplace w' ?doc') 3 1000)"
            from True blocks Inr found cov run have
              "\<exists>rest. acts = (?acts1 @ ?acts2) @ ?a3 @ rest \<and> upserts rest = []"
              "rs_uploads rs1 = fst (snd ?pl)" "rs_slugToFile rs1 = rs_slugToFile rs"
              by (auto simp: import_document_def Let_def split_beta upserts_print
                       split: retry_result.splits)
            then have u: "upserts acts = upserts ?a3"
              and r1: "rs_uploads rs1 = fst (snd ?pl)" "rs_slugToFile rs1 = rs_slugToFile rs"
              using a12 by (auto simp: upserts_append)
            from True b' Inr found cov run' have
              "\<exists>rest. acts' = (?acts1 @ ?acts2) @ ?a3' @ rest \<and> upserts rest = []"
              "rs_uploads rs1' = fst (snd ?pl)" "rs_slugToFile rs1' = rs_slugToFile rs'"
              by (auto simp: import_document_def Let_def split_beta upserts_print rp ex ui us st ac env dr
                       split: retry_result.splits)
            then have u': "upserts acts' = upserts ?a3'"
              and r1': "rs_uploads rs1' = fst (snd ?pl)" "rs_slugToFile rs1' = rs_slugToFile rs'"
              using a12 by (auto simp: upserts_append)
            have "upserts ?a3 \<noteq> []" "upserts ?a3' \<noteq> []" by (rule upserts_retry_some)+
            moreover have "set (upserts ?a3) \<subseteq> {?doc}" "set (upserts ?a3') \<subseteq> {?doc'}"
              by (rule upserts_retry_subset)+
            then have "\<forall>d \<in> set (upserts ?a3). \<forall>d' \<in> set (upserts ?a3'). same_document now now' d d'"
              using same by blast
            ultimately show ?thesis using u u' r1 r1' sl by simp
          qed
        qed
      qed
    qed
  qed
qed
lemma upserts_header: "upserts [Print l, ReadText f] = []"
  by (simp add: upserts_def)

lemma upserts_checkSlugCollision: "upserts (fst (checkSlugCollision slug file m)) = []"
  by (simp add: checkSlugCollision_def upserts_print split: option.splits)

lemma importFile_rerun:
  assumes env: "w_env w' = w_env w" and up: "w_assetsUpload w' = w_assetsUpload w"
      and ab: "w_isAbsolute w' = w_isAbsolute w" and re: "w_resolve w' = w_resolve w"
      and ex: "w_existsSync w' = w_existsSync w" and cv: "w_convert w' = w_convert w"
      and dr: "w_DRAFT w' = w_DRAFT w" and on: "w_ONLY w' = w_ONLY w"
      and ma: "w_matter w' = w_matter w" and dp: "w_dateParse w' = w_dateParse w"
      and author: "\<forall>authorId author.
                     fst (ensureAuthor w' authorId author) = fst (ensureAuthor w authorId author)"
      and us: "rs_uploads rs' = rs_uploads rs" and sl: "rs_slugToFile rs' = rs_slugToFile rs"
      and run: "importFile w mdFilePath index total_files rs = (res, rs1, acts)"
      and run': "importFile w' mdFilePath index total_files rs' = (res', rs1', acts')"
  shows "(upserts acts = [] \<longleftrightarrow> upserts acts' = []) \<and>
         (\<forall>d \<in> set (upserts acts). \<forall>d' \<in> set (upserts acts').
            same_document (w_now w) (w_now w') d d') \<and>
         rs_uploads rs1' = rs_uploads rs1 \<and> rs_slugToFile rs1' = rs_slugToFile rs1"
proof -
  let ?acts0 = "[Print ([CHR 0x0A] @ ''['' @ show_nat (index + 1) @ ''/'' @ show_nat total_files @ ''] '' @
                          env_basename (w_env w) mdFilePath),
                 ReadText mdFilePath]"
  have a0: "upserts ?acts0 = []" by (rule upserts_header)
  have early: ?thesis if "acts = ?acts0" "acts' = ?acts0" "rs1 = rs" "rs1' = rs'"
    using that us sl a0 by (simp del: append.simps)
  show ?thesis
  proof (cases "readFileWithContext (env_readFileSync (w_env w)) mdFilePath ''markdown post''")
    case (Inl e)
    with run have "acts = ?acts0" "rs1 = rs" by (simp_all add: importFile_def Let_def)
    moreover from Inl run' have "acts' = ?acts0" "rs1' = rs'"
      by (simp_all add: importFile_def Let_def env)
    ultimately show ?thesis by (intro early)
  next
    case raw: (Inr raw)
    show ?thesis
    proof (cases "w_matter w raw")
      case (Inl e)
      with raw run have "acts = ?acts0" "rs1 = rs" by (simp_all add: importFile_def Let_def)
      moreover from Inl raw run' have "acts' = ?acts0" "rs1' = rs'"
        by (simp_all add: importFile_def Let_def env ma)
      ultimately show ?thesis by (intro early)
    next
      case (Inr parsed)
      obtain fm content where parsed: "parsed = (fm, content)" by (cases parsed)
      note fm = Inr[unfolded parsed]
      show ?thesis
      proof (cases "validateFrontmatter (w_dateParse w) fm mdFilePath")
        case (Inl msg)
        with raw fm run have "acts = ?acts0" "rs1 = rs" by (simp_all add: importFile_def Let_def)
        moreover from Inl raw fm run' have "acts' = ?acts0" "rs1' = rs'"
          by (simp_all add: importFile_def Let_def env ma dp)
        ultimately show ?thesis by (intro early)
      next
        case valid: (Inr ok)
        let ?slug = "if truthy (fm_slug fm) then Inr (fm_slug fm)
                     else map_sum id JStr (slugify (js_string (fm_title fm)))"
        show ?thesis
        proof (cases ?slug)
          case (Inl e)
          with raw fm valid run have "acts = ?acts0" "rs1 = rs"
            by (auto simp: importFile_def Let_def split: if_splits)
          moreover from Inl raw fm valid run' have "acts' = ?acts0" "rs1' = rs'"
            by (auto simp: importFile_def Let_def env ma dp split: if_splits)
          ultimately show ?thesis by (intro early)
        next
          case slug: (Inr slug)
          let ?chk = "checkSlugCollision slug mdFilePath (rs_slugToFile rs)"
          let ?rs1 = "rs\<lparr>rs_slugToFile := snd ?chk\<rparr>"
          let ?rs1' = "rs'\<lparr>rs_slugToFile := snd ?chk\<rparr>"
          have warn: "upserts (fst ?chk) = []" by (rule upserts_checkSlugCollision)
          show ?thesis
          proof (cases "truthy_str (w_ONLY w) \<and> slug \<noteq> JStr (the (w_ONLY w))")
            case True
            with raw fm valid slug run have "\<exists>l. acts = ?acts0 @ fst ?chk @ [Print l]" "rs1 = ?rs1"
              by (auto simp: importFile_def Let_def split_beta split: if_splits)
            moreover from True raw fm valid slug run'
            have "\<exists>l. acts' = ?acts0 @ fst ?chk @ [Print l]" "rs1' = ?rs1'"
              by (auto simp: importFile_def Let_def split_beta env ma dp on sl split: if_splits)
            ultimately show ?thesis using a0 warn us
              by (auto simp: upserts_append upserts_print simp del: append.simps)
          next
            case go: False
            let ?au = "ensureAuthor w (fm_authorId fm) (fm_author fm)"
            let ?au' = "ensureAuthor w' (fm_authorId fm) (fm_author fm)"
            from author have au: "fst ?au' = fst ?au" by blast
            have ua: "upserts (snd ?au) = []" "upserts (snd ?au') = []"
              by (rule upserts_ensureAuthor)+
            show ?thesis
            proof (cases "fst ?au")
              case (Inl e)
              with raw fm valid slug go run have "acts = ?acts0 @ fst ?chk @ snd ?au" "rs1 = ?rs1"
                by (auto simp: importFile_def Let_def split_beta split: if_splits)
              moreover from Inl au raw fm valid slug go run'
              have "acts' = ?acts0 @ fst ?chk @ snd ?au'" "rs1' = ?rs1'"
                by (auto simp: importFile_def Let_def split_beta env ma dp on sl split: if_splits)
              ultimately show ?thesis using a0 warn ua us
                by (simp add: upserts_append del: append.simps)
            next
              case (Inr authorRef)
              let ?p = "if truthy (fm_publishedAt fm) then fm_publishedAt fm else JStr (w_now w)"
              let ?p' = "if truthy (fm_publishedAt fm) then fm_publishedAt fm else JStr (w_now w')"
              let ?excerpt = "if truthy (fm_excerpt fm) then fm_excerpt fm else JNull"
              let ?cats = "case fm_categories fm of Some xs \<Rightarrow> map js_string xs | None \<Rightarrow> []"
              let ?doc = "import_document w mdFilePath fm content slug ?p ?excerpt ?cats authorRef ?rs1"
              let ?doc' = "import_document w' mdFilePath fm content slug ?p' ?excerpt ?cats authorRef ?rs1'"
              obtain r2 rs2 acts2 where doc: "?doc = (r2, rs2, acts2)" by (cases ?doc)
              obtain r2' rs2' acts2' where doc': "?doc' = (r2', rs2', acts2')" by (cases ?doc')
              from Inr raw fm valid slug go run doc have
                acts: "acts = ?acts0 @ fst ?chk @ snd ?au @ acts2" and rs: "rs1 = rs2"
                by (auto simp: importFile_def Let_def split_beta split: if_splits)
              from Inr au raw fm valid slug go run' doc' have
                acts': "acts' = ?acts0 @ fst ?chk @ snd ?au' @ acts2'" and rs': "rs1' = rs2'"
                by (auto simp: importFile_def Let_def split_beta env ma dp on sl split: if_splits)
              have pub: "?p' = ?p \<or> (?p = JStr (w_now w) \<and> ?p' = JStr (w_now w'))" by simp
              have us1: "rs_uploads ?rs1' = rs_uploads ?rs1" using us by simp
              have sl1: "rs_slugToFile ?rs1' = rs_slugToFile ?rs1" by simp
              note d = import_document_rerun[OF env up ab re ex cv dr us1 sl1 pub doc doc']
              have "upserts acts = upserts acts2" "upserts acts' = upserts acts2'"
                using a0 warn ua unfolding acts acts'
                by (simp_all add: upserts_append del: append.simps)
              with d rs rs' show ?thesis by simp
            qed
          qed
        qed
      qed
    qed
  qed
qed

lemma ensureAuthor_same:
  assumes "w_env w' = w_env w" "w_DRAFT w' = w_DRAFT w" "w_fetchById w' = w_fetchById w"
      and "w_fetchByName w' = w_fetchByName w" "w_createIfNotExists w' = w_createIfNotExists w"
  shows "ensureAuthor w' authorId author = ensureAuthor w authorId author"
proof -
  have "create_missing_author w' author acts = create_missing_author w author acts" for acts
    using assms by (simp add: create_missing_author_def Let_def split: sum.splits)
  with assms show ?thesis by (simp add: ensureAuthor_def Let_def split: retry_result.splits)
qed

text \<open>
  Claim C5, amended. Take two runs over the same files with the same flags, the second
  with other random keys, at another time and with a backend that may answer the
  requests about authors and documents differently, as long as the author resolved is
  the same and the uploader starts from the same state. Then a file is upserted in the
  second run exactly when it is in the first, and the documents sent for it have the
  same identifier and the same content but for the keys in the body and, when the
  frontmatter gives no publication date, the date, which is the time of each run.
\<close>

theorem rerun_same_document:
  assumes "w' = w\<lparr>w_keys := keys', w_now := now', w_fetchById := byId', w_fetchByName := byName',
                   w_createIfNotExists := create', w_createOrReplace := replace'\<rparr>"
      and "\<forall>authorId author.
              fst (ensureAuthor w' authorId author) = fst (ensureAuthor w authorId author)"
      and "rs_uploads rs' = rs_uploads rs" "rs_slugToFile rs' = rs_slugToFile rs"
      and "importFile w mdFilePath index total_files rs = (res, rs1, acts)"
      and "importFile w' mdFilePath index total_files rs' = (res', rs1', acts')"
  shows "(upserts acts = [] \<longleftrightarrow> upserts acts' = []) \<and>
         (\<forall>d \<in> set (upserts acts). \<forall>d' \<in> set (upserts acts').
            same_document (w_now w) now' d d') \<and>
         rs_uploads rs1' = rs_uploads rs1 \<and> rs_slugToFile rs1' = rs_slugToFile rs1"
proof -
  from assms(1) have f: "w_env w' = w_env w" "w_assetsUpload w' = w_assetsUpload w"
    "w_isAbsolute w' = w_isAbsolute w" "w_resolve w' = w_resolve w"
    "w_existsSync w' = w_existsSync w" "w_convert w' = w_convert w"
    "w_DRAFT w' = w_DRAFT w" "w_ONLY w' = w_ONLY w"
    "w_matter w' = w_matter w" "w_dateParse w' = w_dateParse w"
    and now: "w_now w' = now'"
    by simp_all
  from importFile_rerun[OF f assms(2-6)] show ?thesis unfolding now .
qed

theorem rerun_same_document_witness:
  "rerun_world = write_world\<lparr>w_keys := (\<lambda>n. ''R'' @ show_nat n),
       w_now := ''2026-01-02T00:00:00.000Z'', w_fetchById := w_fetchById write_world,
       w_fetchByName := w_fetchByName write_world,
       w_createIfNotExists := w_createIfNotExists write_world,
       w_createOrReplace := w_createOrReplace write_world\<rparr> \<and>
   (\<forall>authorId author. fst (ensureAuthor rerun_world authorId author) =
                       fst (ensureAuthor write_world authorId author)) \<and>
   map d_id (upserts (snd (snd (importFile write_world ''post.md'' 0 1 init_run)))) =
     [''post-hello-world''] \<and>
   map d_id (upserts (snd (snd (importFile rerun_world ''post.md'' 0 1 init_run)))) =
     [''post-hello-world''] \<and>
   list_all (\<lambda>d. list_all (same_document (w_now write_world) ''2026-01-02T00:00:00.000Z'' d)
                    (upserts (snd (snd (importFile rerun_world ''post.md'' 0 1 init_run)))))
     (upserts (snd (snd (importFile write_world ''post.md'' 0 1 init_run))))"
proof -
  let ?run = "importFile write_world ''post.md'' 0 1 init_run"
  let ?run' = "importFile rerun_world ''post.md'' 0 1 init_run"
  have w': "rerun_world = write_world\<lparr>w_keys := (\<lambda>n. ''R'' @ show_nat n),
       w_now := ''2026-01-02T00:00:00.000Z'', w_fetchById := w_fetchById write_world,
       w_fetchByName := w_fetchByName write_world,
       w_createIfNotExists := w_createIfNotExists write_world,
       w_createOrReplace := w_createOrReplace write_world\<rparr>"
    by (simp add: rerun_world_def)
  have au: "\<forall>authorId author. fst (ensureAuthor rerun_world authorId author) =
                       fst (ensureAuthor write_world authorId author)"
  proof (intro allI)
    fix authorId author
    have "ensureAuthor rerun_world authorId author = ensureAuthor write_world authorId author"
      by (rule ensureAuthor_same) (simp_all add: rerun_world_def)
    then show "fst (ensureAuthor rerun_world authorId author) =
               fst (ensureAuthor write_world authorId author)" by simp
  qed
  have r: "?run = (fst ?run, fst (snd ?run), snd (snd ?run))"
    and r': "?run' = (fst ?run', fst (snd ?run'), snd (snd ?run'))" by simp_all
  have i: "map d_id (upserts (snd (snd ?run))) = [''post-hello-world'']" by code_simp
  have i': "map d_id (upserts (snd (snd ?run'))) = [''post-hello-world'']" by code_simp
  from rerun_same_document[OF w' au refl refl r r']
  have "list_all (\<lambda>d. list_all (same_document (w_now write_world) ''2026-01-02T00:00:00.000Z'' d)
                    (upserts (snd (snd ?run')))) (upserts (snd (snd ?run)))"
    by (simp add: list_all_iff)
  with w' au i i' show ?thesis by (intro conjI)
qed

text \<open>
  Claim C5 as stated fails for the content. Two runs over the same file send documents
  with the same identifier, but the keys of the blocks are drawn afresh in each run,
  and a post without a publication date gets the time of the run.
\<close>

theorem rerun_changes_keys_and_date:
  "map (\<lambda>d. (d_id d, d_publishedAt d, map b_key (d_body d)))
     (upserts (snd (snd (importFile write_world ''post.md'' 0 1 init_run)))) =
     [(''post-hello-world'', JStr ''2026-01-01T00:00:00.000Z'',
       [Some ''K0'', Some ''K6'', Some ''K4''])] \<and>
   map (\<lambda>d. (d_id d, d_publishedAt d, map b_key (d_body d)))
     (upserts (snd (snd (importFile rerun_world ''post.md'' 0 1 init_run)))) =
     [(''post-hello-world'', JStr ''2026-01-02T00:00:00.000Z'',
       [Some ''R0'', Some ''R6'', Some ''R4''])]"
  by code_simp

end
